theory Spec2Isabelle
  imports Complex_Main "HOL-Library.Log_Nat"
begin

section \<open>The board engine (chess\_board.py)\<close>

text \<open>
  Python exceptions are values. A method that mutates the board returns the board as it
  is left behind together with its outcome, so that the state after a raise can be
  inspected; a method that only reads the board returns a sum.
\<close>

datatype py_error = ValueError | IndexError | ZeroDivisionError | RuntimeError | OSError

abbreviation (input) BLACK :: int where "BLACK \<equiv> 1"
abbreviation (input) WHITE :: int where "WHITE \<equiv> 0"
abbreviation (input) EMPTY :: int where "EMPTY \<equiv> - 1"

text \<open>
  The attributes of \<open>ChessBoard\<close>. \<open>state\<close> is the \<open>OrderedDict\<close> from action to
  player: an association list in insertion order. \<open>available_actions\<close> is a Python list.
\<close>

record ChessBoard =
  board_len :: int
  current_player :: int
  n_feature_planes :: int
  available_actions :: "int list"
  state :: "(int \<times> int) list"
  previous_action :: "int option"

text \<open>\<open>list(range(board_len**2))\<close>\<close>

definition all_actions :: "int \<Rightarrow> int list" where
  "all_actions n = [0 .. n * n - 1]"

text \<open>The object that \<open>__init__\<close> builds once its check has passed.\<close>

definition empty_board :: "int \<Rightarrow> int \<Rightarrow> ChessBoard" where
  "empty_board n nfp =
     \<lparr> board_len = n, current_player = BLACK, n_feature_planes = nfp,
       available_actions = all_actions n, state = [], previous_action = None \<rparr>"

definition ChessBoard_init :: "int \<Rightarrow> int \<Rightarrow> py_error + ChessBoard" where
  "ChessBoard_init n nfp =
     (if nfp mod 2 = 0 then Inl ValueError else Inr (empty_board n nfp))"

definition clear_board :: "ChessBoard \<Rightarrow> ChessBoard" where
  "clear_board b =
     b\<lparr> state := [], previous_action := None, current_player := BLACK,
        available_actions := all_actions (board_len b) \<rparr>"

text \<open>
  \<open>d[k] = v\<close> on an \<open>OrderedDict\<close>: a key already there keeps its place, a new key goes
  to the end. \<open>d.get(k, default)\<close> reads it.
\<close>

fun od_set :: "int \<Rightarrow> int \<Rightarrow> (int \<times> int) list \<Rightarrow> (int \<times> int) list" where
  "od_set k v [] = [(k, v)]"
| "od_set k v ((k', v') # kvs) =
     (if k' = k then (k, v) # kvs else (k', v') # od_set k v kvs)"

definition od_get :: "(int \<times> int) list \<Rightarrow> int \<Rightarrow> int \<Rightarrow> int" where
  "od_get kvs k dflt = (case map_of kvs k of None \<Rightarrow> dflt | Some v \<Rightarrow> v)"

text \<open>
  \<open>do_action\<close>. The statements run in the order of the source: \<open>previous_action\<close> is
  assigned first, then \<open>list.remove\<close> raises \<open>ValueError\<close> when the action is not in the
  list, and only then are the dictionary and the player to move updated.
\<close>

definition do_action :: "ChessBoard \<Rightarrow> int \<Rightarrow> (py_error + unit) \<times> ChessBoard" where
  "do_action b action =
     (let b1 = b\<lparr> previous_action := Some action \<rparr> in
      if action \<notin> set (available_actions b1) then (Inl ValueError, b1)
      else
        let b2 = b1\<lparr> available_actions := remove1 action (available_actions b1) \<rparr>;
            b3 = b2\<lparr> state := od_set action (current_player b2) (state b2) \<rparr>;
            b4 = b3\<lparr> current_player := WHITE + BLACK - current_player b3 \<rparr>
        in (Inr (), b4))"

text \<open>
  \<open>do_action_\<close>, the variant for the application: a coordinate pair, a boolean result
  (a name cannot end with an underscore here, hence \<open>do_action_pos\<close>).
\<close>

definition do_action_pos :: "ChessBoard \<Rightarrow> int \<times> int \<Rightarrow> (py_error + bool) \<times> ChessBoard" where
  "do_action_pos b pos =
     (let action = fst pos * board_len b + snd pos in
      if action \<in> set (available_actions b) then
        (case do_action b action of
           (Inl e, b') \<Rightarrow> (Inl e, b')
         | (Inr _, b') \<Rightarrow> (Inr True, b'))
      else (Inr False, b))"

text \<open>
  The five cells \<open>range(action, action + 5 * step, step)\<close>. The source calls it with the
  steps \<open>1\<close>, \<open>n\<close>, \<open>n + 1\<close> and \<open>n - 1\<close>; a zero step would raise, and is never
  reached: with \<open>n = 0\<close> the division \<open>action // n\<close> raises before, and with \<open>n = 1\<close>
  the test \<open>col >= 4\<close> in front of the last range is false.
\<close>

definition range5 :: "int \<Rightarrow> int \<Rightarrow> int list" where
  "range5 action step = map (\<lambda>k. action + k * step) [0, 1, 2, 3, 4]"

text \<open>\<open>len(set(self.state.get(i, self.EMPTY) for i in cells)) == 1\<close>\<close>

definition same_owner :: "(int \<times> int) list \<Rightarrow> int list \<Rightarrow> bool" where
  "same_owner st cells = (card (set (map (\<lambda>i. od_get st i EMPTY) cells)) = 1)"

text \<open>
  The loop over \<open>self.state.items()\<close> of \<open>is_game_over\<close>: the first entry with a run
  of five, in one of the four directions, returns its player.
\<close>

fun scan :: "int \<Rightarrow> (int \<times> int) list \<Rightarrow> (int \<times> int) list \<Rightarrow> int option" where
  "scan n st [] = None"
| "scan n st ((action, player) # items) =
     (let row = action div n; col = action mod n in
      if col \<le> n - 5 \<and> same_owner st (range5 action 1) then Some player
      else if row \<le> n - 5 \<and> same_owner st (range5 action n) then Some player
      else if row \<le> n - 5 \<and> col \<le> n - 5 \<and> same_owner st (range5 action (n + 1))
        then Some player
      else if row \<le> n - 5 \<and> col \<ge> 4 \<and> same_owner st (range5 action (n - 1))
        then Some player
      else scan n st items)"

text \<open>
  \<open>is_game_over\<close>: the pair \<open>(is_over, winner)\<close>, \<open>winner = None\<close> as \<open>None\<close>. With nine
  entries or more the loop body runs, and \<open>action // n\<close> raises when \<open>n = 0\<close>.
\<close>

definition is_game_over :: "ChessBoard \<Rightarrow> py_error + (bool \<times> int option)" where
  "is_game_over b =
     (if length (state b) < 9 then Inr (False, None)
      else if board_len b = 0 then Inl ZeroDivisionError
      else
        (case scan (board_len b) (state b) (state b) of
           Some player \<Rightarrow> Inr (True, Some player)
         | None \<Rightarrow>
             if available_actions b = [] then Inr (True, None) else Inr (False, None)))"

text \<open>
  A sequence of moves: \<open>do_action\<close> after \<open>do_action\<close>, stopping at the first that raises.
\<close>

fun do_actions :: "ChessBoard \<Rightarrow> int list \<Rightarrow> (py_error + unit) \<times> ChessBoard" where
  "do_actions b [] = (Inr (), b)"
| "do_actions b (a # as) =
     (case do_action b a of
        (Inl e, b') \<Rightarrow> (Inl e, b')
      | (Inr _, b') \<Rightarrow> do_actions b' as)"

text \<open>The colour of the \<open>i\<close>-th move of a game, counted from zero: BLACK begins.\<close>

definition colour_at :: "nat \<Rightarrow> int" where
  "colour_at i = (if even i then BLACK else WHITE)"

text \<open>The invariant of the board on a side length \<open>n\<close>.\<close>

definition board_inv :: "int \<Rightarrow> ChessBoard \<Rightarrow> bool" where
  "board_inv n b \<longleftrightarrow>
     board_len b = n \<and>
     distinct (map fst (state b)) \<and>
     distinct (available_actions b) \<and>
     set (available_actions b) = {0 ..< n * n} - set (map fst (state b)) \<and>
     set (map fst (state b)) \<subseteq> {0 ..< n * n} \<and>
     map snd (state b) = map colour_at [0 ..< length (state b)] \<and>
     current_player b = colour_at (length (state b))"

text \<open>
  Five in a row, in the words of the rules: the board as a grid of rows and columns,
  the stone on a cell, and a run as five cells from a start cell along one of the four
  directions (to the right, down, down to the right, down to the left), all five on
  the board and all five holding a stone of the player.
\<close>

definition on_board :: "int \<Rightarrow> int \<Rightarrow> int \<Rightarrow> bool" where
  "on_board n r c \<longleftrightarrow> 0 \<le> r \<and> r < n \<and> 0 \<le> c \<and> c < n"

definition stone_at :: "ChessBoard \<Rightarrow> int \<Rightarrow> int \<Rightarrow> int option" where
  "stone_at b r c =
     (if on_board (board_len b) r c then map_of (state b) (r * board_len b + c) else None)"

definition directions :: "(int \<times> int) list" where
  "directions = [(0, 1), (1, 0), (1, 1), (1, - 1)]"

definition five_from :: "ChessBoard \<Rightarrow> int \<Rightarrow> int \<Rightarrow> int \<Rightarrow> int \<times> int \<Rightarrow> bool" where
  "five_from b p r c d =
     list_all (\<lambda>k. stone_at b (r + k * fst d) (c + k * snd d) = Some p) [0, 1, 2, 3, 4]"

definition has_five :: "ChessBoard \<Rightarrow> int \<Rightarrow> bool" where
  "has_five b p =
     list_ex (\<lambda>r. list_ex (\<lambda>c. list_ex (five_from b p r c) directions)
        [0 .. board_len b - 1]) [0 .. board_len b - 1]"

text \<open>
  The winner in the words of the rules and of the order of the moves. A stone starts a
  five when it is the first of five stones of its colour along one of the four
  directions from its cell (row \<open>a div n\<close>, column \<open>a mod n\<close>): the leftmost stone of a
  horizontal five, the topmost of a vertical or a diagonal one. \<open>first_five_owner\<close> is
  the player of the first stone, in the order in which the stones were placed, that
  starts a five, if there is one.
\<close>

definition starts_five :: "ChessBoard \<Rightarrow> int \<Rightarrow> bool" where
  "starts_five b a =
     (case map_of (state b) a of
        None \<Rightarrow> False
      | Some p \<Rightarrow>
          list_ex (five_from b p (a div board_len b) (a mod board_len b)) directions)"

definition first_five_owner :: "ChessBoard \<Rightarrow> int option" where
  "first_five_owner b = map_option snd (find (\<lambda>(a, p). starts_five b a) (state b))"

text \<open>
  The test that the body of the loop of \<open>is_game_over\<close> makes on one entry: \<open>scan\<close>
  returns the player of the first entry that passes it.
\<close>

definition hit :: "int \<Rightarrow> (int \<times> int) list \<Rightarrow> int \<Rightarrow> bool" where
  "hit n st a \<longleftrightarrow>
     (a mod n \<le> n - 5 \<and> same_owner st (range5 a 1)) \<or>
     (a div n \<le> n - 5 \<and> same_owner st (range5 a n)) \<or>
     (a div n \<le> n - 5 \<and> a mod n \<le> n - 5 \<and> same_owner st (range5 a (n + 1))) \<or>
     (a div n \<le> n - 5 \<and> a mod n \<ge> 4 \<and> same_owner st (range5 a (n - 1)))"

text \<open>
  \<open>plane[indices] = 1\<close>, the assignment through a sequence of indices that
  \<open>get_feature_planes\<close> makes on one row of its tensor: an index below zero counts from
  the end, and an index out of range raises \<open>IndexError\<close>.
\<close>

fun set_ones :: "int list \<Rightarrow> int list \<Rightarrow> py_error + int list" where
  "set_ones plane [] = Inr plane"
| "set_ones plane (i # is) =
     (let m = int (length plane) in
      if i < - m \<or> m \<le> i then Inl IndexError
      else set_ones (plane[nat (if i < 0 then i + m else i) := 1]) is)"

text \<open>
  The loop \<open>for i in range(4)\<close> of \<open>get_feature_planes\<close> on the tensor of nine rows:
  row \<open>2 * i\<close> gets \<open>Xt[i:]\<close> when \<open>i < len(Xt)\<close>, row \<open>2 * i + 1\<close> gets \<open>Yt[i:]\<close>
  when \<open>i < len(Yt)\<close>.
\<close>

fun add_history ::
  "int list \<Rightarrow> int list \<Rightarrow> nat list \<Rightarrow> int list list \<Rightarrow> py_error + int list list" where
  "add_history Xt Yt [] planes = Inr planes"
| "add_history Xt Yt (i # is) planes =
     (case (if i < length Xt then set_ones (planes ! (2 * i)) (drop i Xt)
            else Inr (planes ! (2 * i))) of
        Inl e \<Rightarrow> Inl e
      | Inr px \<Rightarrow>
          (let planes1 = planes[2 * i := px] in
           case (if i < length Yt then set_ones (planes1 ! (2 * i + 1)) (drop i Yt)
                 else Inr (planes1 ! (2 * i + 1))) of
             Inl e \<Rightarrow> Inl e
           | Inr py \<Rightarrow> add_history Xt Yt is (planes1[2 * i + 1 := py])))"

text \<open>
  \<open>tensor.view((9, n, n))\<close> on the tensor of nine rows of \<open>n\<^sup>2\<close> entries: each row is
  cut into \<open>n\<close> rows of \<open>n\<close> entries. A negative \<open>n\<close> is no shape, and raises.
\<close>

definition rows :: "nat \<Rightarrow> int list \<Rightarrow> int list list" where
  "rows n plane = map (\<lambda>r. take n (drop (r * n) plane)) [0 ..< n]"

definition view :: "int list list \<Rightarrow> int \<Rightarrow> py_error + int list list list" where
  "view planes n = (if n < 0 then Inl RuntimeError else Inr (map (rows (nat n)) planes))"

text \<open>
  \<open>get_feature_planes\<close>. The tensor holds the numbers 0 and 1 only (and the colour of
  the player to move, which is one of them): its entries are integers here. \<open>Xt\<close> and
  \<open>Yt\<close> are the actions, last move first, of the player to move and of every other
  player.
\<close>

definition get_feature_planes :: "ChessBoard \<Rightarrow> py_error + int list list list" where
  "get_feature_planes b =
     (let n2 = nat (board_len b * board_len b);
          zeros = replicate 9 (replicate n2 0);
          planes0 = zeros[8 := replicate n2 (current_player b)];
          filled =
            (if state b \<noteq> [] then
               let actions = rev (map fst (state b));
                   players = rev (map snd (state b));
                   Xt = map fst (filter (\<lambda>(a, p). p = current_player b) (zip actions players));
                   Yt = map fst (filter (\<lambda>(a, p). p \<noteq> current_player b) (zip actions players))
               in add_history Xt Yt [0, 1, 2, 3] planes0
             else Inr planes0)
      in case filled of
           Inl e \<Rightarrow> Inl e
         | Inr planes \<Rightarrow> view planes (board_len b))"

text \<open>
  The stones of a player in the order of the spec's history: the cells the player has
  occupied, the most recent first.
\<close>

definition stones_of :: "ChessBoard \<Rightarrow> int \<Rightarrow> int list" where
  "stones_of b p = rev (map fst (filter (\<lambda>(a, q). q = p) (state b)))"

text \<open>The row of \<open>N\<close> entries that is 1 on the cells of \<open>S\<close> and 0 elsewhere.\<close>

definition cell_mask :: "nat \<Rightarrow> int set \<Rightarrow> int list" where
  "cell_mask N S = map (\<lambda>j. if int j \<in> S then 1 else 0) [0 ..< N]"

text \<open>
  The tensor before \<open>view\<close>, in the words of the history: rows \<open>2 * i\<close> and
  \<open>2 * i + 1\<close> are the cells of the player to move and of the opponent without their
  \<open>i\<close> most recent stones, and the last row is the colour of the player to move.
\<close>

definition history_planes :: "ChessBoard \<Rightarrow> int list list" where
  "history_planes b =
     (let N = nat (board_len b * board_len b);
          X = stones_of b (current_player b);
          Y = stones_of b (WHITE + BLACK - current_player b)
      in [cell_mask N (set (drop 0 X)), cell_mask N (set (drop 0 Y)),
          cell_mask N (set (drop 1 X)), cell_mask N (set (drop 1 Y)),
          cell_mask N (set (drop 2 X)), cell_mask N (set (drop 2 Y)),
          cell_mask N (set (drop 3 X)), cell_mask N (set (drop 3 Y)),
          replicate N (current_player b)])"

section \<open>Self-play (train.py)\<close>

text \<open>
  \<open>SelfPlayData(feature_planes_list, pi_list, z)\<close>, the tuple that \<open>__self_play\<close>
  returns. The type of a feature tensor and of a vector \<open>\<pi>\<close> are parameters.
\<close>

record ('f, 'p) SelfPlayData =
  feature_planes_list :: "'f list"
  pi_list :: "'p list"
  z :: "int list"

text \<open>
  The labels at the end of a game: \<open>[1 if i == winner else -1 for i in players]\<close> when
  there is a winner, \<open>[0] * len(players)\<close> when there is none.
\<close>

definition outcome_labels :: "int option \<Rightarrow> int list \<Rightarrow> int list" where
  "outcome_labels winner players =
     (case winner of
        Some w \<Rightarrow> map (\<lambda>i. if i = w then 1 else - 1) players
      | None \<Rightarrow> replicate (length players) 0)"

text \<open>
  The loop \<open>while True\<close> of \<open>__self_play\<close>. The search is outside this development:
  \<open>get_action\<close> is any function from the state of the search and the board to an
  action, a vector \<open>\<pi>\<close> (\<open>probs\<close> here) and the next state of the search; it leaves
  the board it is given as it is. The three lists
  grow at their end, as \<open>append\<close> does. An exception of \<open>get_feature_planes\<close>, \<open>do_action\<close>
  or \<open>is_game_over\<close> leaves the loop. Every turn of the loop that goes on has taken one
  action out of \<open>available_actions\<close>: the loop ends.
\<close>

function self_play_loop ::
  "('m \<Rightarrow> ChessBoard \<Rightarrow> (int \<times> 'p) \<times> 'm) \<Rightarrow> 'm \<Rightarrow> ChessBoard \<Rightarrow>
     'p list \<Rightarrow> int list list list list \<Rightarrow> int list \<Rightarrow>
     py_error + (int list list list list \<times> 'p list \<times> int list) \<times> 'm \<times> ChessBoard" where
  "self_play_loop get_action m b pis fpl players =
     (case get_action m b of
        ((action, probs), m1) \<Rightarrow>
          (case get_feature_planes b of
             Inl e \<Rightarrow> Inl e
           | Inr fp \<Rightarrow>
               (case do_action b action of
                  (Inl e, b1) \<Rightarrow> Inl e
                | (Inr u, b1) \<Rightarrow>
                    (case is_game_over b1 of
                       Inl e \<Rightarrow> Inl e
                     | Inr (is_over, winner) \<Rightarrow>
                         if is_over then
                           Inr ((fpl @ [fp], pis @ [probs],
                                 outcome_labels winner (players @ [current_player b])), m1, b1)
                         else
                           self_play_loop get_action m1 b1 (pis @ [probs]) (fpl @ [fp])
                             (players @ [current_player b])))))"
  by pat_completeness auto
termination
proof (relation "measure (\<lambda>(g, m, b, pis, fpl, pls). length (available_actions b))")
  show "wf (measure (\<lambda>(g :: 'a \<Rightarrow> ChessBoard \<Rightarrow> (int \<times> 'b) \<times> 'a, m :: 'a, b, pis :: 'b list,
      fpl :: int list list list list, pls :: int list). length (available_actions b)))"
    by simp
next
  fix get_action :: "'a \<Rightarrow> ChessBoard \<Rightarrow> (int \<times> 'b) \<times> 'a"
  fix m b pis and fpl :: "int list list list list" and players :: "int list"
  fix x1 m1 action probs fp x2 b1 u ov is_over winner
  assume mv: "(x2, b1) = do_action b action" and ok: "x2 = Inr u"
  from mv ok have mem: "action \<in> set (available_actions b)"
    and av: "available_actions b1 = remove1 action (available_actions b)"
    by (auto simp: do_action_def Let_def split: if_splits)
  from mem have "0 < length (available_actions b)" by (rule length_pos_if_in_set)
  with mem have "length (available_actions b1) < length (available_actions b)"
    by (simp add: av length_remove1)
  then show "((get_action, m1, b1, pis @ [probs], fpl @ [fp], players @ [current_player b]),
        get_action, m, b, pis, fpl, players)
       \<in> measure (\<lambda>(g, m, b, pis, fpl, pls). length (available_actions b))"
    by simp
qed

text \<open>
  \<open>__self_play\<close>: the board is cleared, the loop runs, the root of the search is reset
  and the data are returned. The result carries the search and the board as the method
  leaves them.
\<close>

definition self_play ::
  "('m \<Rightarrow> ChessBoard \<Rightarrow> (int \<times> 'p) \<times> 'm) \<Rightarrow> ('m \<Rightarrow> 'm) \<Rightarrow> 'm \<Rightarrow> ChessBoard \<Rightarrow>
     py_error + (int list list list, 'p) SelfPlayData \<times> 'm \<times> ChessBoard" where
  "self_play get_action reset_root m b =
     (case self_play_loop get_action m (clear_board b) [] [] [] of
        Inl e \<Rightarrow> Inl e
      | Inr ((fpl, pis, zs), m1, b1) \<Rightarrow>
          Inr (\<lparr> feature_planes_list = fpl, pi_list = pis, z = zs \<rparr>, reset_root m1, b1))"

text \<open>
  The protocol of an episode in the words of the spec, as a relation: at each ply the
  search is asked, the board of that moment and \<open>\<pi>\<close> are recorded, the action is applied,
  and the game goes on while the board is not over. \<open>episode get_action m b plies m' b' w\<close>:
  from the search \<open>m\<close> and the board \<open>b\<close>, the plies recorded are \<open>plies\<close> (each with the
  board before its action), and the game ends on the board \<open>b'\<close> with the winner \<open>w\<close>.
\<close>

inductive episode ::
  "('m \<Rightarrow> ChessBoard \<Rightarrow> (int \<times> 'p) \<times> 'm) \<Rightarrow> 'm \<Rightarrow> ChessBoard \<Rightarrow>
     (ChessBoard \<times> 'p) list \<Rightarrow> 'm \<Rightarrow> ChessBoard \<Rightarrow> int option \<Rightarrow> bool"
  for get_action where
  last_ply:
    "get_action m b = ((action, probs), m1) \<Longrightarrow> do_action b action = (Inr (), b1) \<Longrightarrow>
     is_game_over b1 = Inr (True, winner) \<Longrightarrow>
     episode get_action m b [(b, probs)] m1 b1 winner"
| ply:
    "get_action m b = ((action, probs), m1) \<Longrightarrow> do_action b action = (Inr (), b1) \<Longrightarrow>
     is_game_over b1 = Inr (False, w0) \<Longrightarrow>
     episode get_action m1 b1 plies m' b' winner \<Longrightarrow>
     episode get_action m b ((b, probs) # plies) m' b' winner"

code_pred episode .

text \<open>The label of a recorded mover, in the words of the spec.\<close>

definition label_for :: "int option \<Rightarrow> int \<Rightarrow> int" where
  "label_for winner mover =
     (case winner of None \<Rightarrow> 0 | Some w \<Rightarrow> if mover = w then 1 else - 1)"

text \<open>
  A search for the examples: it plays the moves 0, 5, 1, 6, 2, 7, 3, 8, 4 in this order,
  records the number of the ply as \<open>\<pi>\<close>, and counts the plies as its state.
\<close>

definition scripted :: "nat \<Rightarrow> ChessBoard \<Rightarrow> (int \<times> nat) \<times> nat" where
  "scripted m b = (([0, 5, 1, 6, 2, 7, 3, 8, 4] ! m, m), Suc m)"

section \<open>The training pipeline (train.py)\<close>

text \<open>
  The files the pipeline writes: a network saved by \<open>torch.save\<close>, or a list of losses
  written by \<open>json.dump\<close>. The type of a network and of a loss are parameters.
\<close>

datatype ('net, 'loss) disk_file = Pth 'net | Json "'loss list"

text \<open>
  What \<open>save_model\<close> and \<open>__test_model\<close> read and write of a \<open>TrainPipeLine\<close>, and the
  disk they reach through their paths: \<open>disk\<close> maps a path to its file, and a write to
  a path of \<open>unwritable\<close> raises \<open>OSError\<close>. \<open>mcts\<close> is the search of the pipeline; it is
  built over \<open>policy_value_net\<close>, so that \<open>self.mcts.policy_value_net\<close> is that network.
\<close>

record ('net, 'm, 'loss) TrainPipeLine =
  n_test_games :: int
  chess_board :: ChessBoard
  policy_value_net :: 'net
  mcts :: 'm
  train_losses :: "'loss list"
  writer_closed :: bool
  disk :: "string \<Rightarrow> ('net, 'loss) disk_file option"
  unwritable :: "string set"

text \<open>The three paths of the source; \<open>CHR 0x5C\<close> is the backslash.\<close>

definition best_model_path :: string where
  "best_model_path = ''model'' @ [CHR 0x5C] @ ''best_policy_value_net.pth''"

definition last_model_path :: "string \<Rightarrow> string" where
  "last_model_path t = ''model'' @ [CHR 0x5C] @ ''last_policy_value_net_'' @ t @ ''.pth''"

definition losses_path :: string where
  "losses_path = ''log'' @ [CHR 0x5C] @ ''train_losses.json''"

definition torch_save ::
  "('net, 'm, 'loss) TrainPipeLine \<Rightarrow> 'net \<Rightarrow> string \<Rightarrow>
     (py_error + unit) \<times> ('net, 'm, 'loss) TrainPipeLine" where
  "torch_save p net path =
     (if path \<in> unwritable p then (Inl OSError, p)
      else (Inr (), p\<lparr> disk := (disk p)(path \<mapsto> Pth net) \<rparr>))"

definition json_dump ::
  "('net, 'm, 'loss) TrainPipeLine \<Rightarrow> 'loss list \<Rightarrow> string \<Rightarrow>
     (py_error + unit) \<times> ('net, 'm, 'loss) TrainPipeLine" where
  "json_dump p losses path =
     (if path \<in> unwritable p then (Inl OSError, p)
      else (Inr (), p\<lparr> disk := (disk p)(path \<mapsto> Json losses) \<rparr>))"


text \<open>
  The decorator \<open>save_model\<close>: \<open>wrapper\<close> runs \<open>train_func\<close>; a bare \<open>except\<close> catches
  whatever it raises, saves the network under the path that holds the time \<open>t\<close> of the
  clock, closes the writer and writes the losses. Nothing is raised again: the wrapper
  then returns. An exception of the handler itself leaves the wrapper. The training
  function is a parameter: its outcome and the pipeline it leaves behind.
\<close>

definition save_model ::
  "(('net, 'm, 'loss) TrainPipeLine \<Rightarrow> (py_error + unit) \<times> ('net, 'm, 'loss) TrainPipeLine) \<Rightarrow>
     string \<Rightarrow> ('net, 'm, 'loss) TrainPipeLine \<Rightarrow>
     (py_error + unit) \<times> ('net, 'm, 'loss) TrainPipeLine" where
  "save_model train_func t train_pipe_line =
     (case train_func train_pipe_line of
        (Inr u, p1) \<Rightarrow> (Inr (), p1)
      | (Inl e, p1) \<Rightarrow>
          (case torch_save p1 (policy_value_net p1) (last_model_path t) of
             (Inl e1, p2) \<Rightarrow> (Inl e1, p2)
           | (Inr u, p2) \<Rightarrow>
               json_dump (p2\<lparr> writer_closed := True \<rparr>) (train_losses p2) losses_path))"










definition example_pipeline :: "int \<Rightarrow> (nat, bool \<times> nat \<times> nat, rat) TrainPipeLine" where
  "example_pipeline n =
     \<lparr> n_test_games = n, chess_board = empty_board 5 9, policy_value_net = 1,
       mcts = (True, 0, 0), train_losses = [3 / 2, 1], writer_closed = False,
       disk = [best_model_path \<mapsto> Pth 0], unwritable = {} \<rparr>"

text \<open>A training function that records one more loss and then fails.\<close>

definition crashing_train ::
  "(nat, bool \<times> nat \<times> nat, rat) TrainPipeLine \<Rightarrow>
     (py_error + unit) \<times> (nat, bool \<times> nat \<times> nat, rat) TrainPipeLine" where
  "crashing_train p = (Inl RuntimeError, p\<lparr> train_losses := train_losses p @ [1 / 2] \<rparr>)"

section \<open>The invariant of the board\<close>

lemma od_set_fresh: "k \<notin> set (map fst kvs) \<Longrightarrow> od_set k v kvs = kvs @ [(k, v)]"
  by (induction kvs) auto

lemma set_all_actions: "set (all_actions n) = {0 ..< n * n}"
  by (auto simp: all_actions_def)

lemma distinct_all_actions: "distinct (all_actions n)"
  by (simp add: all_actions_def)

lemma length_all_actions: "length (all_actions n) = nat (n * n)"
  by (simp add: all_actions_def)

lemma board_inv_empty: "board_inv n (empty_board n nfp)"
  by (simp add: board_inv_def empty_board_def set_all_actions distinct_all_actions
      colour_at_def)

lemma board_inv_clear: "board_inv (board_len b) (clear_board b)"
  by (simp add: board_inv_def clear_board_def set_all_actions distinct_all_actions
      colour_at_def)

lemma do_action_ok_iff:
  "fst (do_action b a) = Inr () \<longleftrightarrow> a \<in> set (available_actions b)"
  by (simp add: do_action_def Let_def)

lemma do_action_inv:
  assumes "board_inv n b" and "do_action b a = (Inr (), b')"
  shows "board_inv n b' \<and> state b' = state b @ [(a, current_player b)] \<and>
         available_actions b' = remove1 a (available_actions b) \<and>
         previous_action b' = Some a \<and> a \<in> set (available_actions b)"
proof -
  from assms(2) have av: "a \<in> set (available_actions b)"
    by (auto simp: do_action_def Let_def split: if_splits)
  with assms(1) have fresh: "a \<notin> set (map fst (state b))" and rng: "a \<in> {0 ..< n * n}"
    by (auto simp: board_inv_def)
  from assms(2) av have b': "b' = b\<lparr> previous_action := Some a,
       available_actions := remove1 a (available_actions b),
       state := od_set a (current_player b) (state b),
       current_player := WHITE + BLACK - current_player b \<rparr>"
    by (simp add: do_action_def Let_def)
  have st: "state b' = state b @ [(a, current_player b)]"
    using fresh by (simp add: b' od_set_fresh)
  have cp: "current_player b' = colour_at (Suc (length (state b)))"
    using assms(1) by (simp add: b' board_inv_def colour_at_def)
  have "board_inv n b'"
    unfolding board_inv_def
    using assms(1) fresh rng av st cp
    by (auto simp: board_inv_def b' od_set_fresh)
  then show ?thesis using st av by (simp add: b')
qed

lemma do_actions_inv:
  "board_inv n b \<Longrightarrow> do_actions b as = (Inr (), b') \<Longrightarrow>
     board_inv n b' \<and> state b' = state b @ zip as (map snd (drop (length (state b)) (state b'))) \<and>
     length (state b') = length (state b) + length as \<and>
     length (available_actions b') + length as = length (available_actions b)"
proof (induction as arbitrary: b)
  case Nil
  then show ?case by simp
next
  case (Cons a as)
  then obtain b1 where s1: "do_action b a = (Inr (), b1)"
    and s2: "do_actions b1 as = (Inr (), b')"
    by (auto split: prod.splits sum.splits)
  from do_action_inv[OF Cons.prems(1) s1]
  have i1: "board_inv n b1" and st1: "state b1 = state b @ [(a, current_player b)]"
    and av1: "available_actions b1 = remove1 a (available_actions b)"
    and mem: "a \<in> set (available_actions b)"
    by simp_all
  from Cons.IH[OF i1 s2]
  have i': "board_inv n b'"
    and st': "state b' = state b1 @ zip as (map snd (drop (length (state b1)) (state b')))"
    and len: "length (state b') = length (state b1) + length as"
    and lav: "length (available_actions b') + length as = length (available_actions b1)"
    by simp_all
  have dr: "drop (length (state b)) (state b') =
      (a, current_player b) # drop (length (state b1)) (state b')"
    by (subst (1 2) st') (simp add: st1)
  have "length (available_actions b) > 0"
    using mem by (cases "available_actions b") auto
  then have "length (available_actions b') + length (a # as) = length (available_actions b)"
    using lav mem by (simp add: av1 length_remove1)
  moreover have "state b' = state b @ zip (a # as) (map snd (drop (length (state b)) (state b')))"
    by (subst dr, subst st') (simp add: st1)
  ultimately show ?case using i' len by (simp add: st1)
qed

lemma do_actions_append:
  "do_actions b (xs @ ys) =
     (case do_actions b xs of (Inl e, b') \<Rightarrow> (Inl e, b') | (Inr u, b') \<Rightarrow> do_actions b' ys)"
  by (induction xs arbitrary: b) (auto split: prod.splits sum.splits)

lemma do_actions_prefix:
  assumes "do_actions b as = (Inr (), b')"
  shows "\<exists>bk. do_actions b (take k as) = (Inr (), bk)"
proof -
  have "do_actions b (take k as @ drop k as) = (Inr (), b')"
    using assms by simp
  then show ?thesis
    unfolding do_actions_append by (auto split: prod.splits sum.splits)
qed

lemma map_fst_zip_same: "length ys = length xs \<Longrightarrow> map fst (zip xs ys) = xs"
  by (induction xs arbitrary: ys) (auto simp: length_Suc_conv)

text \<open>What holds of every board that legal moves reach from the empty board.\<close>

lemma reachable_inv:
  assumes "do_actions (empty_board n nfp) as = (Inr (), b)"
  shows "board_inv n b" and "map fst (state b) = as" and "length (state b) = length as"
    and "int (length (available_actions b)) = n * n - int (length as)"
proof -
  note r = do_actions_inv[OF board_inv_empty assms]
  show "board_inv n b" using r by simp
  have e: "state (empty_board n nfp) = []" by (simp add: empty_board_def)
  show l: "length (state b) = length as" using r by (simp add: e)
  have "state b = zip as (map snd (state b))" using r by (simp add: e)
  then have "map fst (state b) = map fst (zip as (map snd (state b)))" by simp
  also have "\<dots> = as" by (rule map_fst_zip_same) (simp add: l)
  finally show "map fst (state b) = as" .
  have "length (available_actions b) + length as = nat (n * n)"
    using r by (simp add: empty_board_def length_all_actions)
  then have "int (length (available_actions b)) + int (length as) = int (nat (n * n))"
    by (simp only: of_nat_add [symmetric])
  then show "int (length (available_actions b)) = n * n - int (length as)"
    using zero_le_square[of n] by simp
qed

section \<open>C7: the invariant after every legal move\<close>

text \<open>
  C7. Let \<open>as\<close> be a sequence of legal moves from the empty board of side \<open>n\<close> (every
  \<open>do_action\<close> of it returns). After each of its moves, that is after its first \<open>k\<close>
  moves for every \<open>k\<close> up to its length, the occupied cells are the moves played, they
  are pairwise different and lie in \<open>[0, n\<^sup>2)\<close>, there are \<open>k\<close> of them, the legal
  list has no repetition, holds exactly the cells of \<open>[0, n\<^sup>2)\<close> that are not occupied
  and has \<open>n\<^sup>2 - k\<close> entries, the stones were placed by BLACK and WHITE in turn, and
  the player to move is BLACK when \<open>k\<close> is even and WHITE when it is odd.
\<close>

theorem legal_moves_keep_invariant:
  assumes "do_actions (empty_board n nfp) as = (Inr (), b)" and "k \<le> length as"
  shows "\<exists>bk. do_actions (empty_board n nfp) (take k as) = (Inr (), bk) \<and>
     map fst (state bk) = take k as \<and>
     distinct (map fst (state bk)) \<and>
     set (map fst (state bk)) \<subseteq> {0 ..< n * n} \<and>
     length (state bk) = k \<and>
     distinct (available_actions bk) \<and>
     set (available_actions bk) = {0 ..< n * n} - set (map fst (state bk)) \<and>
     int (length (available_actions bk)) = n * n - int k \<and>
     map snd (state bk) = map colour_at [0 ..< k] \<and>
     current_player bk = colour_at k"
proof -
  from do_actions_prefix[OF assms(1)]
  obtain bk where bk: "do_actions (empty_board n nfp) (take k as) = (Inr (), bk)"
    by blast
  have lk: "length (take k as) = k" using assms(2) by simp
  note r = reachable_inv[OF bk, unfolded lk]
  from r(1) r(3) have "distinct (map fst (state bk))"
    "set (map fst (state bk)) \<subseteq> {0 ..< n * n}"
    "distinct (available_actions bk)"
    "set (available_actions bk) = {0 ..< n * n} - set (map fst (state bk))"
    "map snd (state bk) = map colour_at [0 ..< k]"
    "current_player bk = colour_at k"
    by (simp_all add: board_inv_def)
  with bk r(2,3,4) show ?thesis by blast
qed

text \<open>Three moves on the board of side 3, looked at after the second.\<close>

theorem legal_moves_keep_invariant_witness:
  "do_actions (empty_board 3 9) [4, 0, 8] =
     (Inr (), \<lparr> board_len = 3, current_player = WHITE, n_feature_planes = 9,
        available_actions = [1, 2, 3, 5, 6, 7],
        state = [(4, BLACK), (0, WHITE), (8, BLACK)], previous_action = Some 8 \<rparr>) \<and>
   (\<exists>bk. do_actions (empty_board 3 9) (take 2 [4, 0, 8]) = (Inr (), bk) \<and>
     map fst (state bk) = take 2 [4, 0, 8] \<and>
     distinct (map fst (state bk)) \<and>
     set (map fst (state bk)) \<subseteq> {0 ..< 3 * 3} \<and>
     length (state bk) = 2 \<and>
     distinct (available_actions bk) \<and>
     set (available_actions bk) = {0 ..< 3 * 3} - set (map fst (state bk)) \<and>
     int (length (available_actions bk)) = 3 * 3 - int 2 \<and>
     map snd (state bk) = map colour_at [0 ..< 2] \<and>
     current_player bk = colour_at 2)"
proof -
  have h: "do_actions (empty_board 3 9) [4, 0, 8] =
     (Inr (), \<lparr> board_len = 3, current_player = WHITE, n_feature_planes = 9,
        available_actions = [1, 2, 3, 5, 6, 7],
        state = [(4, BLACK), (0, WHITE), (8, BLACK)], previous_action = Some 8 \<rparr>)"
    by code_simp
  have k: "2 \<le> length [4, 0, 8 :: int]" by simp
  from h legal_moves_keep_invariant[OF h k] show ?thesis by (rule conjI)
qed

section \<open>C2: an illegal action given to \<open>do_action\<close>\<close>

lemma do_action_illegal:
  "a \<notin> set (available_actions b) \<Longrightarrow>
     do_action b a = (Inl ValueError, b\<lparr> previous_action := Some a \<rparr>)"
  by (simp add: do_action_def Let_def)

lemma do_action_legal:
  assumes "board_inv n b" and "a \<in> set (available_actions b)"
  shows "do_action b a =
     (Inr (), b\<lparr> previous_action := Some a,
        available_actions := remove1 a (available_actions b),
        state := state b @ [(a, current_player b)],
        current_player := WHITE + BLACK - current_player b \<rparr>)"
proof -
  from assms have "a \<notin> set (map fst (state b))"
    by (auto simp: board_inv_def)
  then show ?thesis
    using assms(2) by (simp add: do_action_def Let_def od_set_fresh)
qed

text \<open>
  C2. On a board that legal moves have reached, \<open>do_action\<close> with an index out of range
  or already occupied raises \<open>ValueError\<close>. The board it leaves behind has the occupied
  cells, the legal list and the player to move of the board before, and the rejected
  index as its previous action: the assignment to \<open>previous_action\<close> is the first
  statement of the method and runs before \<open>list.remove\<close> raises.
\<close>

theorem do_action_illegal_overwrites_previous_action:
  assumes "do_actions (empty_board n nfp) as = (Inr (), b)"
    and "a < 0 \<or> n * n \<le> a \<or> a \<in> set (map fst (state b))"
  shows "do_action b a = (Inl ValueError, b\<lparr> previous_action := Some a \<rparr>)"
proof -
  from reachable_inv(1)[OF assms(1)] assms(2) have "a \<notin> set (available_actions b)"
    by (auto simp: board_inv_def)
  then show ?thesis by (rule do_action_illegal)
qed

text \<open>
  The new board of side 9 and the index 81: the call raises, and the previous action,
  \<open>None\<close> before, is 81 after.
\<close>

theorem do_action_illegal_overwrites_previous_action_witness:
  "do_actions (empty_board 9 9) [] = (Inr (), empty_board 9 9) \<and>
   previous_action (empty_board 9 9) = None \<and>
   do_action (empty_board 9 9) 81 =
     (Inl ValueError, (empty_board 9 9)\<lparr> previous_action := Some 81 \<rparr>) \<and>
   previous_action (snd (do_action (empty_board 9 9) 81)) = Some 81"
proof -
  have h: "do_actions (empty_board 9 9) [] = (Inr (), empty_board 9 9)" by simp
  have a: "(81::int) < 0 \<or> 9 * 9 \<le> (81::int) \<or> 81 \<in> set (map fst (state (empty_board 9 9)))"
    by simp
  from do_action_illegal_overwrites_previous_action[OF h a] h show ?thesis
    by (simp add: empty_board_def)
qed

section \<open>C8: the coordinate pair given to \<open>do_action_\<close>\<close>

text \<open>
  C8. On a board that legal moves have reached, \<open>do_action_\<close> never raises. It tests the
  flattened index \<open>r * n + c\<close> of the pair, not the two coordinates: it returns
  \<open>True\<close> and places the stone at that index exactly when the index is a free cell of
  \<open>[0, n\<^sup>2)\<close>, and it returns \<open>False\<close> and leaves the board as it was otherwise. A pair
  with a coordinate out of range whose flattened index is a free cell is therefore
  accepted.
\<close>

theorem do_action_pos_tests_flat_index:
  assumes "do_actions (empty_board n nfp) as = (Inr (), b)"
  shows "do_action_pos b (r, c) =
     (if 0 \<le> r * n + c \<and> r * n + c < n * n \<and> r * n + c \<notin> set (map fst (state b))
      then (Inr True, b\<lparr> previous_action := Some (r * n + c),
              available_actions := remove1 (r * n + c) (available_actions b),
              state := state b @ [(r * n + c, current_player b)],
              current_player := WHITE + BLACK - current_player b \<rparr>)
      else (Inr False, b))"
proof -
  note inv = reachable_inv(1)[OF assms]
  then have n: "board_len b = n" by (simp add: board_inv_def)
  show ?thesis
  proof (cases "r * n + c \<in> set (available_actions b)")
    case True
    with inv have "0 \<le> r * n + c \<and> r * n + c < n * n \<and> r * n + c \<notin> set (map fst (state b))"
      by (auto simp: board_inv_def)
    then show ?thesis
      using True do_action_legal[OF inv True] by (simp add: do_action_pos_def n Let_def)
  next
    case False
    with inv have "\<not> (0 \<le> r * n + c \<and> r * n + c < n * n \<and> r * n + c \<notin> set (map fst (state b)))"
      by (auto simp: board_inv_def)
    then show ?thesis
      using False by (simp add: do_action_pos_def n Let_def)
  qed
qed

text \<open>
  The new board of side 9 and the pair \<open>(0, 9)\<close>, whose column is out of range: the call
  returns \<open>True\<close> and BLACK's stone stands at index 9, the cell of row 1 and column 0.
\<close>

theorem do_action_pos_tests_flat_index_witness:
  "do_actions (empty_board 9 9) [] = (Inr (), empty_board 9 9) \<and>
   fst (do_action_pos (empty_board 9 9) (0, 9)) = Inr True \<and>
   state (snd (do_action_pos (empty_board 9 9) (0, 9))) = [(9, BLACK)] \<and>
   current_player (snd (do_action_pos (empty_board 9 9) (0, 9))) = WHITE"
proof -
  have h: "do_actions (empty_board 9 9) [] = (Inr (), empty_board 9 9)" by simp
  from do_action_pos_tests_flat_index[OF h, of 0 9] h show ?thesis
    by (simp add: empty_board_def)
qed

section \<open>Runs of five: the scan of the source and the rules\<close>

lemma scan_Some:
  "scan n st items = Some p \<Longrightarrow> \<exists>a. (a, p) \<in> set items \<and> hit n st a"
  by (induction items) (auto simp: hit_def Let_def split: if_splits)

lemma scan_None:
  "scan n st items = None \<Longrightarrow> (a, p) \<in> set items \<Longrightarrow> \<not> hit n st a"
  by (induction items) (auto simp: hit_def Let_def split: if_splits)

lemma same_owner_iff:
  assumes "map_of st a = Some p" and "p \<noteq> EMPTY"
  shows "same_owner st (range5 a s) \<longleftrightarrow>
     (\<forall>k \<in> {0, 1, 2, 3, 4}. map_of st (a + k * s) = Some p)"
proof -
  let ?f = "\<lambda>i. od_get st i EMPTY"
  have fa: "?f a = p" using assms(1) by (simp add: od_get_def)
  have get: "\<And>i. ?f i = p \<longleftrightarrow> map_of st i = Some p"
    using assms(2) by (auto simp: od_get_def split: option.splits)
  let ?S = "set (map ?f (range5 a s))"
  have mem: "p \<in> ?S" using fa by (simp add: range5_def)
  have "card ?S = 1 \<longleftrightarrow> ?S = {p}"
  proof
    assume "card ?S = 1"
    then obtain v where "?S = {v}" by (auto simp: card_1_singleton_iff)
    with mem show "?S = {p}" by auto
  qed simp
  also have "\<dots> \<longleftrightarrow> (\<forall>k \<in> {0, 1, 2, 3, 4}. ?f (a + k * s) = p)"
    using fa by (auto simp: range5_def)
  finally show ?thesis by (simp add: same_owner_def get)
qed

lemma colour_count:
  "length (filter (\<lambda>x. x = p) (map colour_at [0 ..< k])) =
     (if p = BLACK then (k + 1) div 2 else if p = WHITE then k div 2 else 0)"
  by (induction k) (auto simp: colour_at_def)

lemma colour_count_le: "2 * length (filter (\<lambda>x. x = p) (map colour_at [0 ..< k])) \<le> k + 1"
  using colour_count[of p k] by (simp del: filter_map split: if_splits)

lemma inv_players:
  assumes "board_inv n b" and "(a, p) \<in> set (state b)"
  shows "p = BLACK \<or> p = WHITE"
proof -
  from assms(2) have "p \<in> set (map snd (state b))" by force
  also have "map snd (state b) = map colour_at [0 ..< length (state b)]"
    using assms(1) by (simp add: board_inv_def)
  finally show ?thesis by (auto simp: colour_at_def)
qed

lemma inv_lookup:
  assumes "board_inv n b"
  shows "map_of (state b) a = Some p \<longleftrightarrow> (a, p) \<in> set (state b)"
  using assms by (auto simp: board_inv_def dest: map_of_SomeD)

lemma inv_range:
  assumes "board_inv n b" and "(a, p) \<in> set (state b)"
  shows "0 \<le> a" and "a < n * n"
proof -
  from assms(2) have "a \<in> set (map fst (state b))" by force
  with assms(1) show "0 \<le> a" and "a < n * n" by (auto simp: board_inv_def)
qed

text \<open>Five different cells of one colour need nine stones on the board.\<close>

lemma five_stones_need_nine:
  assumes inv: "board_inv n b" and "distinct cs" and "length cs = 5"
    and "\<forall>c \<in> set cs. (c, p) \<in> set (state b)"
  shows "9 \<le> length (state b)"
proof -
  let ?own = "filter (\<lambda>x. x = p) (map snd (state b))"
  have "set (map (\<lambda>c. (c, p)) cs) \<subseteq> set (filter (\<lambda>e. snd e = p) (state b))"
    using assms(4) by auto
  moreover have "distinct (map (\<lambda>c. (c, p)) cs)"
    using assms(2) by (simp add: distinct_map inj_on_def)
  ultimately have "length (map (\<lambda>c. (c, p)) cs) \<le> card (set (filter (\<lambda>e. snd e = p) (state b)))"
    by (metis List.finite_set card_mono distinct_card)
  also have "\<dots> \<le> length (filter (\<lambda>e. snd e = p) (state b))"
    by (rule card_length)
  also have "\<dots> = length ?own"
    by (simp add: filter_map comp_def)
  finally have "5 \<le> length ?own" using assms(3) by simp
  moreover have "2 * length ?own \<le> length (state b) + 1"
    using inv colour_count_le[of p "length (state b)"] by (simp add: board_inv_def)
  ultimately show ?thesis by linarith
qed

lemma has_five_iff:
  "has_five b p \<longleftrightarrow>
     (\<exists>r c d. 0 \<le> r \<and> r < board_len b \<and> 0 \<le> c \<and> c < board_len b \<and> d \<in> set directions \<and>
        (\<forall>k \<in> {0, 1, 2, 3, 4}. stone_at b (r + k * fst d) (c + k * snd d) = Some p))"
  unfolding has_five_def five_from_def list_ex_iff list_all_iff
  by (simp only: set_upto atLeastAtMost_iff list.set) (safe; force)

lemma cell_index: "(r + k * dr) * n + (c + k * dc) = (r * n + c) + k * (dr * n + dc)" for n :: int
  by (simp add: algebra_simps)

lemma div_mod_cell:
  fixes n :: int
  assumes "0 \<le> c" and "c < n"
  shows "(r * n + c) div n = r" and "(r * n + c) mod n = c"
  using assms by simp_all

lemma row_col_of_cell:
  fixes n :: int
  assumes "0 < n" and "0 \<le> a" and "a < n * n"
  shows "0 \<le> a div n" and "a div n < n" and "0 \<le> a mod n" and "a mod n < n"
    and "a div n * n + a mod n = a"
proof -
  show "0 \<le> a div n" using assms by (simp add: pos_imp_zdiv_nonneg_iff)
  show "0 \<le> a mod n" "a mod n < n" using assms by simp_all
  show "a div n * n + a mod n = a" by simp
  show "a div n < n"
  proof (rule ccontr)
    assume "\<not> a div n < n"
    then have "n * n \<le> a div n * n" using assms(1) by (simp add: mult_right_mono)
    also have "\<dots> \<le> a div n * n + a mod n" using \<open>0 \<le> a mod n\<close> by linarith
    also have "\<dots> = a" by simp
    finally show False using assms(3) by simp
  qed
qed

text \<open>
  The run that starts at the entry \<open>a\<close> in the direction \<open>d\<close>, when the five cells are
  on the board: the test of the source on the indices is the test on the coordinates.
\<close>

lemma run_on_indices:
  assumes inv: "board_inv n b" and st: "(a, p) \<in> set (state b)" and n: "0 < n"
    and on: "on_board n (a div n + 4 * dr) (a mod n + 4 * dc)"
    and d: "(dr, dc) \<in> set directions"
  shows "same_owner (state b) (range5 a (dr * n + dc)) \<longleftrightarrow>
     (\<forall>k \<in> {0, 1, 2, 3, 4}. stone_at b (a div n + k * dr) (a mod n + k * dc) = Some p)"
proof -
  have bl: "board_len b = n" using inv by (simp add: board_inv_def)
  note rc = row_col_of_cell[OF n inv_range[OF inv st]]
  have look: "map_of (state b) a = Some p" using inv st by (simp add: inv_lookup)
  have pe: "p \<noteq> EMPTY" using inv_players[OF inv st] by auto
  have onk: "on_board n (a div n + k * dr) (a mod n + k * dc)" if "k \<in> {0, 1, 2, 3, 4}" for k
  proof -
    define r c where "r = a div n" and "c = a mod n"
    have "0 \<le> r" "r < n" "0 \<le> c" "c < n" "on_board n (r + 4 * dr) (c + 4 * dc)"
      using rc(1-4) on by (simp_all add: r_def c_def)
    then have "on_board n (r + k * dr) (c + k * dc)"
      using that d by (auto simp: on_board_def directions_def)
    then show ?thesis by (simp add: r_def c_def)
  qed
  have idx: "(a div n + k * dr) * n + (a mod n + k * dc) = a + k * (dr * n + dc)" for k
    unfolding cell_index by (simp only: rc(5))
  show ?thesis
    unfolding same_owner_iff[OF look pe]
    by (auto simp: stone_at_def bl onk idx simp del: mult_zero_left)
qed

lemma hit_directions:
  fixes n :: int
  assumes "0 \<le> r" "r < n" "0 \<le> c" "c < n"
  shows "((c \<le> n - 5 \<and> A 1) \<or> (r \<le> n - 5 \<and> A n) \<or>
          (r \<le> n - 5 \<and> c \<le> n - 5 \<and> A (n + 1)) \<or> (r \<le> n - 5 \<and> c \<ge> 4 \<and> A (n - 1))) \<longleftrightarrow>
         (\<exists>d \<in> set directions. on_board n (r + 4 * fst d) (c + 4 * snd d) \<and> A (fst d * n + snd d))"
  using assms by (auto simp: directions_def on_board_def)

lemma hit_iff:
  assumes inv: "board_inv n b" and st: "(a, p) \<in> set (state b)" and n: "0 < n"
  shows "hit n (state b) a \<longleftrightarrow>
     (\<exists>d \<in> set directions. \<forall>k \<in> {0, 1, 2, 3, 4}.
        stone_at b (a div n + k * fst d) (a mod n + k * snd d) = Some p)"
proof -
  have bl: "board_len b = n" using inv by (simp add: board_inv_def)
  note rc = row_col_of_cell[OF n inv_range[OF inv st]]
  have "hit n (state b) a \<longleftrightarrow>
     (\<exists>d \<in> set directions. on_board n (a div n + 4 * fst d) (a mod n + 4 * snd d) \<and>
        same_owner (state b) (range5 a (fst d * n + snd d)))"
    unfolding hit_def by (rule hit_directions[OF rc(1-4)])
  also have "\<dots> \<longleftrightarrow>
     (\<exists>d \<in> set directions. on_board n (a div n + 4 * fst d) (a mod n + 4 * snd d) \<and>
        (\<forall>k \<in> {0, 1, 2, 3, 4}.
           stone_at b (a div n + k * fst d) (a mod n + k * snd d) = Some p))"
    using run_on_indices[OF inv st n] by (metis prod.collapse)
  also have "\<dots> \<longleftrightarrow>
     (\<exists>d \<in> set directions. \<forall>k \<in> {0, 1, 2, 3, 4}.
        stone_at b (a div n + k * fst d) (a mod n + k * snd d) = Some p)"
  proof -
    have "on_board n (a div n + 4 * fst d) (a mod n + 4 * snd d)"
      if "\<forall>k \<in> {0, 1, 2, 3, 4}.
        stone_at b (a div n + k * fst d) (a mod n + k * snd d) = Some p" for d
    proof -
      from that have "stone_at b (a div n + 4 * fst d) (a mod n + 4 * snd d) = Some p" by blast
      then show ?thesis by (simp add: stone_at_def bl split: if_splits)
    qed
    then show ?thesis by blast
  qed
  finally show ?thesis .
qed

text \<open>A reported run is five stones in a line, and five stones in a line are a run.\<close>

lemma hit_has_five:
  assumes inv: "board_inv n b" and st: "(a, p) \<in> set (state b)" and n: "0 < n"
    and h: "hit n (state b) a"
  shows "has_five b p"
proof -
  have bl: "board_len b = n" using inv by (simp add: board_inv_def)
  note rc = row_col_of_cell[OF n inv_range[OF inv st]]
  from h obtain d where "d \<in> set directions"
    "\<forall>k \<in> {0, 1, 2, 3, 4}. stone_at b (a div n + k * fst d) (a mod n + k * snd d) = Some p"
    unfolding hit_iff[OF inv st n] by blast
  then show ?thesis
    unfolding has_five_iff bl using rc(1-4) by blast
qed

lemma has_five_hit:
  assumes inv: "board_inv n b" and h: "has_five b p"
  shows "0 < n \<and> (\<exists>a. (a, p) \<in> set (state b) \<and> hit n (state b) a)"
proof -
  have bl: "board_len b = n" using inv by (simp add: board_inv_def)
  from h obtain r c d where rc: "0 \<le> r" "r < n" "0 \<le> c" "c < n" and d: "d \<in> set directions"
    and five: "\<forall>k \<in> {0, 1, 2, 3, 4}. stone_at b (r + k * fst d) (c + k * snd d) = Some p"
    unfolding has_five_iff bl by blast
  have n: "0 < n" using rc by linarith
  from five have "stone_at b (r + 0 * fst d) (c + 0 * snd d) = Some p" by blast
  then have "map_of (state b) (r * n + c) = Some p"
    by (simp add: stone_at_def bl split: if_splits)
  then have st: "(r * n + c, p) \<in> set (state b)" by (rule map_of_SomeD)
  have dm: "(r * n + c) div n = r" "(r * n + c) mod n = c"
    using div_mod_cell[OF rc(3,4)] by simp_all
  have "hit n (state b) (r * n + c)"
    unfolding hit_iff[OF inv st n] dm using d five by blast
  with st n show ?thesis by blast
qed

lemma has_five_nine:
  assumes inv: "board_inv n b" and h: "has_five b p"
  shows "9 \<le> length (state b)"
proof -
  have bl: "board_len b = n" using inv by (simp add: board_inv_def)
  from h obtain r c d where rc: "0 \<le> r" "r < n" "0 \<le> c" "c < n" and d: "d \<in> set directions"
    and five: "\<forall>k \<in> {0, 1, 2, 3, 4}. stone_at b (r + k * fst d) (c + k * snd d) = Some p"
    unfolding has_five_iff bl by blast
  let ?cell = "\<lambda>k. (r + k * fst d) * n + (c + k * snd d)"
  let ?cs = "map ?cell [0, 1, 2, 3, 4]"
  have on: "on_board n (r + k * fst d) (c + k * snd d)" if "k \<in> {0, 1, 2, 3, 4}" for k
    using five that by (auto simp: stone_at_def bl split: if_splits)
  have cellp: "(?cell k, p) \<in> set (state b)" if "k \<in> {0, 1, 2, 3, 4}" for k
  proof -
    from five that have "stone_at b (r + k * fst d) (c + k * snd d) = Some p" by blast
    then show ?thesis by (auto simp: stone_at_def bl split: if_splits dest: map_of_SomeD)
  qed
  have all: "\<forall>x \<in> set ?cs. (x, p) \<in> set (state b)"
    using cellp[of 0] cellp[of 1] cellp[of 2] cellp[of 3] cellp[of 4] by simp
  have inj: "k = j" if "k \<in> {0, 1, 2, 3, 4}" "j \<in> {0, 1, 2, 3, 4}" and e: "?cell k = ?cell j"
    for k j
  proof -
    define rk ck rj cj where "rk = r + k * fst d" and "ck = c + k * snd d"
      and "rj = r + j * fst d" and "cj = c + j * snd d"
    have bk: "0 \<le> ck" "ck < n" and bj: "0 \<le> cj" "cj < n"
      using on[OF that(1)] on[OF that(2)] by (simp_all add: on_board_def ck_def cj_def)
    have "rk * n + ck = rj * n + cj"
      using e by (simp add: rk_def ck_def rj_def cj_def)
    then have "(rk * n + ck) div n = (rj * n + cj) div n" "(rk * n + ck) mod n = (rj * n + cj) mod n"
      by simp_all
    then have "rk = rj" "ck = cj"
      unfolding div_mod_cell[OF bk] div_mod_cell[OF bj] by simp_all
    then have "k * fst d = j * fst d" "k * snd d = j * snd d"
      by (simp_all add: rk_def ck_def rj_def cj_def)
    moreover have "fst d = 1 \<or> snd d = 1" using d by (auto simp: directions_def)
    ultimately show "k = j" by auto
  qed
  have "distinct ?cs"
    using inj[of 0 1] inj[of 0 2] inj[of 0 3] inj[of 0 4] inj[of 1 2] inj[of 1 3] inj[of 1 4]
      inj[of 2 3] inj[of 2 4] inj[of 3 4]
    by auto
  from five_stones_need_nine[OF inv this _ all] show ?thesis by simp
qed

lemma no_hit_negative:
  fixes n :: int
  assumes n: "n < 0" and a: "0 \<le> a" "a < n * n"
  shows "\<not> hit n st a"
proof -
  have m: "n < a mod n" using n by simp
  have d: "n \<le> a div n"
  proof (rule ccontr)
    assume "\<not> n \<le> a div n"
    then have "a div n \<le> n - 1" by simp
    then have "(n - 1) * n \<le> a div n * n" using n by (simp add: mult_right_mono_neg)
    then have "n * n - n \<le> a div n * n" by (simp add: algebra_simps)
    moreover have "a div n * n + a mod n = a" by simp
    ultimately have "n * n - n + a mod n \<le> a" by linarith
    with m a(2) show False by linarith
  qed
  from m d show ?thesis by (auto simp: hit_def)
qed

lemma scan_negative:
  assumes inv: "board_inv n b" and n: "n < 0"
  shows "scan n (state b) (state b) = None"
proof (cases "scan n (state b) (state b)")
  case (Some p)
  then obtain a where "(a, p) \<in> set (state b)" "hit n (state b) a"
    using scan_Some by blast
  with no_hit_negative[OF n inv_range[OF inv this(1)]] show ?thesis by blast
qed simp

lemma has_five_player:
  assumes inv: "board_inv n b" and h: "has_five b p"
  shows "p = BLACK \<or> p = WHITE"
  using has_five_hit[OF inv h] inv_players[OF inv] by blast

text \<open>What \<open>is_game_over\<close> reports on a board that satisfies the invariant.\<close>

lemma win_sound:
  assumes inv: "board_inv n b" and w: "is_game_over b = Inr (True, Some p)"
  shows "has_five b p"
proof -
  have bl: "board_len b = n" using inv by (simp add: board_inv_def)
  from w have sc: "scan n (state b) (state b) = Some p" and n0: "n \<noteq> 0"
    by (auto simp: is_game_over_def bl split: if_splits option.splits)
  then obtain a where st: "(a, p) \<in> set (state b)" and h: "hit n (state b) a"
    using scan_Some by blast
  have "0 < n" using scan_negative[OF inv] sc n0 by (cases "n < 0") auto
  from hit_has_five[OF inv st this h] show ?thesis .
qed

lemma win_complete:
  assumes inv: "board_inv n b" and h: "has_five b p"
  shows "\<exists>q. is_game_over b = Inr (True, Some q)"
proof -
  have bl: "board_len b = n" using inv by (simp add: board_inv_def)
  from has_five_hit[OF inv h] obtain a where n: "0 < n" and st: "(a, p) \<in> set (state b)"
    and ht: "hit n (state b) a" by blast
  have "scan n (state b) (state b) \<noteq> None"
    using scan_None[OF _ st] ht by blast
  moreover have "\<not> length (state b) < 9" using has_five_nine[OF inv h] by simp
  ultimately show ?thesis using n by (auto simp: is_game_over_def bl)
qed

lemma scan_step:
  "scan n st ((a, p) # items) = (if hit n st a then Some p else scan n st items)"
  by (auto simp: hit_def Let_def)

lemma scan_find:
  "scan n st items = map_option snd (find (\<lambda>(a, p). hit n st a) items)"
proof (induction items)
  case Nil
  show ?case by simp
next
  case (Cons x items)
  obtain a p where x: "x = (a, p)" by (cases x)
  show ?case
    unfolding x scan_step using Cons by simp
qed

lemma starts_five_iff:
  "starts_five b a \<longleftrightarrow>
     (\<exists>p. map_of (state b) a = Some p \<and>
        (\<exists>d \<in> set directions. \<forall>k \<in> {0, 1, 2, 3, 4}.
           stone_at b (a div board_len b + k * fst d) (a mod board_len b + k * snd d) = Some p))"
  by (auto simp: starts_five_def five_from_def list_ex_iff split: option.splits)

lemma starts_five_positive:
  assumes "starts_five b a"
  shows "0 < board_len b"
proof -
  from assms obtain p d where
    "\<forall>k \<in> {0, 1, 2, 3, 4}.
       stone_at b (a div board_len b + k * fst d) (a mod board_len b + k * snd d) = Some p"
    unfolding starts_five_iff by blast
  then have "stone_at b (a div board_len b + 0 * fst d) (a mod board_len b + 0 * snd d) = Some p"
    by blast
  then show ?thesis
    by (auto simp: stone_at_def on_board_def split: if_splits)
qed

lemma starts_five_hit:
  assumes inv: "board_inv n b" and st: "(a, p) \<in> set (state b)" and n: "0 < n"
  shows "starts_five b a \<longleftrightarrow> hit n (state b) a"
proof -
  have bl: "board_len b = n" using inv by (simp add: board_inv_def)
  have look: "map_of (state b) a = Some p" using inv st by (simp add: inv_lookup)
  show ?thesis
    unfolding hit_iff[OF inv st n] starts_five_iff bl by (simp add: look)
qed

lemma first_five_owner_scan:
  assumes inv: "board_inv n b" and n: "0 < n"
  shows "first_five_owner b = scan n (state b) (state b)"
proof -
  have "find (\<lambda>(a, p). starts_five b a) (state b) =
        find (\<lambda>(a, p). hit n (state b) a) (state b)"
  proof (rule find_cong[OF refl])
    fix x assume "x \<in> set (state b)"
    then have "(fst x, snd x) \<in> set (state b)" by simp
    from starts_five_hit[OF inv this n]
    show "(case x of (a, p) \<Rightarrow> starts_five b a) = (case x of (a, p) \<Rightarrow> hit n (state b) a)"
      by (simp add: case_prod_unfold)
  qed
  then show ?thesis by (simp add: first_five_owner_def scan_find)
qed

lemma first_five_owner_none:
  assumes "board_len b \<le> 0"
  shows "first_five_owner b = None"
proof -
  have "\<not> starts_five b a" for a
    using starts_five_positive[of b a] assms by auto
  then have "find (\<lambda>(a, p). starts_five b a) (state b) = None"
    by (simp add: find_None_iff)
  then show ?thesis by (simp add: first_five_owner_def)
qed

lemma first_five_owner_has_five:
  assumes inv: "board_inv n b" and f: "first_five_owner b = Some p"
  shows "has_five b p"
proof -
  have bl: "board_len b = n" using inv by (simp add: board_inv_def)
  have n: "0 < n" using first_five_owner_none[of b] f bl by (cases "0 < n") auto
  from f have "scan n (state b) (state b) = Some p"
    by (simp add: first_five_owner_scan[OF inv n])
  then obtain a where "(a, p) \<in> set (state b)" "hit n (state b) a"
    using scan_Some by blast
  from hit_has_five[OF inv this(1) n this(2)] show ?thesis .
qed

text \<open>\<open>is_game_over\<close>, in full, on a board that satisfies the invariant.\<close>

lemma is_game_over_inv:
  assumes inv: "board_inv n b"
  shows "is_game_over b =
     Inr (case first_five_owner b of
            Some q \<Rightarrow> (True, Some q)
          | None \<Rightarrow> (9 \<le> length (state b) \<and> available_actions b = [], None))"
proof -
  have bl: "board_len b = n" using inv by (simp add: board_inv_def)
  show ?thesis
  proof (cases "length (state b) < 9")
    case True
    have "first_five_owner b = None"
    proof (cases "first_five_owner b")
      case (Some q)
      from has_five_nine[OF inv first_five_owner_has_five[OF inv Some]] True show ?thesis
        by simp
    qed simp
    with True show ?thesis by (simp add: is_game_over_def)
  next
    case False
    then have "state b \<noteq> []" by auto
    then obtain a p where "(a, p) \<in> set (state b)" by (cases "state b") auto
    from inv_range[OF inv this] have "0 < n * n" by linarith
    then have n0: "n \<noteq> 0" by auto
    show ?thesis
    proof (cases "0 < n")
      case True
      show ?thesis
        using False n0
        by (simp add: is_game_over_def bl first_five_owner_scan[OF inv True]
            split: option.splits)
    next
      case neg: False
      with n0 have n: "n < 0" by simp
      have "board_len b \<le> 0" using n by (simp add: bl)
      then have "first_five_owner b = None" by (rule first_five_owner_none)
      then show ?thesis
        using False n0 scan_negative[OF inv n] by (simp add: is_game_over_def bl)
    qed
  qed
qed

section \<open>C1: when \<open>is_game_over\<close> reports a winner\<close>

text \<open>
  C1, as the code has it. On every board that legal moves reach from the empty board,
  \<open>is_game_over\<close> reports a win for a player exactly when that player owns the first
  stone, in the order in which the stones were placed, that starts five stones of its
  colour in a line in one of the four directions, all on the board. So it reports a win
  for a player only when five stones of that player lie in such a line (never for fewer
  than five, for a line with an empty or an opposite cell, or for a line that wraps past
  the edge); whenever some player has such five stones it reports a win, for a player
  who has them; and when the other player has none, the win it reports is for that
  player. On a board where both players have five in a line only one of them is
  reported.
\<close>

theorem win_reported_for_a_player_with_five:
  assumes "do_actions (empty_board n nfp) as = (Inr (), b)"
  shows "(is_game_over b = Inr (True, Some p) \<longleftrightarrow> first_five_owner b = Some p) \<and>
         (is_game_over b = Inr (True, Some p) \<longrightarrow> has_five b p) \<and>
         (has_five b p \<longrightarrow> (\<exists>q. is_game_over b = Inr (True, Some q) \<and> has_five b q)) \<and>
         (has_five b p \<and> \<not> has_five b (WHITE + BLACK - p) \<longrightarrow>
            is_game_over b = Inr (True, Some p))"
proof -
  note inv = reachable_inv(1)[OF assms]
  have 0: "is_game_over b = Inr (True, Some p) \<longleftrightarrow> first_five_owner b = Some p"
    unfolding is_game_over_inv[OF inv] by (simp split: option.splits)
  have 1: "has_five b p" if "is_game_over b = Inr (True, Some p)"
    using win_sound[OF inv that] .
  have 2: "\<exists>q. is_game_over b = Inr (True, Some q) \<and> has_five b q" if "has_five b p"
    using win_complete[OF inv that] win_sound[OF inv] by blast
  have 3: "is_game_over b = Inr (True, Some p)"
    if h: "has_five b p" and o: "\<not> has_five b (WHITE + BLACK - p)"
  proof -
    from 2[OF h] obtain q where q: "is_game_over b = Inr (True, Some q)" "has_five b q"
      by blast
    have "q = p"
      using has_five_player[OF inv h] has_five_player[OF inv q(2)] o q(2) by auto
    with q show ?thesis by simp
  qed
  from 0 1 2 3 show ?thesis by blast
qed

text \<open>
  BLACK at 0, 1, 2, 3, 4 and WHITE at 9, 10, 11, 12 on the board of side 9: BLACK has
  five in a line, WHITE has not, the first stone that starts a five is BLACK's, and the
  win is BLACK's. And the order of the moves decides where both have five: after 20, 9,
  0, 10, 1, 11, 2, 12, 3, 13, 4 WHITE's stone at 9 was placed before BLACK's at 0, and
  the win reported is WHITE's.
\<close>

theorem win_reported_for_a_player_with_five_witness:
  "do_actions (empty_board 9 9) [0, 9, 1, 10, 2, 11, 3, 12, 4] =
     (Inr (), snd (do_actions (empty_board 9 9) [0, 9, 1, 10, 2, 11, 3, 12, 4])) \<and>
   has_five (snd (do_actions (empty_board 9 9) [0, 9, 1, 10, 2, 11, 3, 12, 4])) BLACK \<and>
   \<not> has_five (snd (do_actions (empty_board 9 9) [0, 9, 1, 10, 2, 11, 3, 12, 4])) WHITE \<and>
   first_five_owner (snd (do_actions (empty_board 9 9) [0, 9, 1, 10, 2, 11, 3, 12, 4])) =
     Some BLACK \<and>
   is_game_over (snd (do_actions (empty_board 9 9) [0, 9, 1, 10, 2, 11, 3, 12, 4])) =
     Inr (True, Some BLACK) \<and>
   do_actions (empty_board 9 9) [20, 9, 0, 10, 1, 11, 2, 12, 3, 13, 4] =
     (Inr (), snd (do_actions (empty_board 9 9) [20, 9, 0, 10, 1, 11, 2, 12, 3, 13, 4])) \<and>
   has_five (snd (do_actions (empty_board 9 9) [20, 9, 0, 10, 1, 11, 2, 12, 3, 13, 4])) BLACK \<and>
   first_five_owner (snd (do_actions (empty_board 9 9) [20, 9, 0, 10, 1, 11, 2, 12, 3, 13, 4])) =
     Some WHITE \<and>
   is_game_over (snd (do_actions (empty_board 9 9) [20, 9, 0, 10, 1, 11, 2, 12, 3, 13, 4])) =
     Inr (True, Some WHITE)"
proof -
  let ?b = "snd (do_actions (empty_board 9 9) [0, 9, 1, 10, 2, 11, 3, 12, 4])"
  let ?c = "snd (do_actions (empty_board 9 9) [20, 9, 0, 10, 1, 11, 2, 12, 3, 13, 4])"
  have "fst (do_actions (empty_board 9 9) [0, 9, 1, 10, 2, 11, 3, 12, 4]) = Inr ()"
    by code_simp
  then have h: "do_actions (empty_board 9 9) [0, 9, 1, 10, 2, 11, 3, 12, 4] = (Inr (), ?b)"
    by (metis prod.collapse)
  have "fst (do_actions (empty_board 9 9) [20, 9, 0, 10, 1, 11, 2, 12, 3, 13, 4]) = Inr ()"
    by code_simp
  then have k: "do_actions (empty_board 9 9) [20, 9, 0, 10, 1, 11, 2, 12, 3, 13, 4] = (Inr (), ?c)"
    by (metis prod.collapse)
  have f: "has_five ?b BLACK" by code_simp
  have g: "\<not> has_five ?b (WHITE + BLACK - BLACK)" by code_simp
  have o: "first_five_owner ?b = Some BLACK" by code_simp
  have f': "has_five ?c BLACK" by code_simp
  have o': "first_five_owner ?c = Some WHITE" by code_simp
  from win_reported_for_a_player_with_five[OF h, of BLACK] f g
  have r: "is_game_over ?b = Inr (True, Some BLACK)" by blast
  from win_reported_for_a_player_with_five[OF k, of WHITE] o'
  have r': "is_game_over ?c = Inr (True, Some WHITE)" by blast
  from h f g o r k f' o' r' show ?thesis by simp
qed

text \<open>
  The claim as it is written fails where both players have five in a line. After the
  legal moves 0, 9, 1, 10, 2, 11, 3, 12, 20, 13, 4 on the board of side 9, WHITE holds
  the cells 9 to 13 and BLACK the cells 0 to 4; the first entry of the dictionary is
  BLACK's stone at 0, and \<open>is_game_over\<close> reports BLACK: no win is reported for WHITE.
\<close>

theorem both_players_five_only_first_reported:
  "fst (do_actions (empty_board 9 9) [0, 9, 1, 10, 2, 11, 3, 12, 20, 13, 4]) = Inr () \<and>
   has_five (snd (do_actions (empty_board 9 9) [0, 9, 1, 10, 2, 11, 3, 12, 20, 13, 4])) WHITE \<and>
   is_game_over (snd (do_actions (empty_board 9 9) [0, 9, 1, 10, 2, 11, 3, 12, 20, 13, 4])) =
     Inr (True, Some BLACK) \<and>
   is_game_over (snd (do_actions (empty_board 9 9) [0, 9, 1, 10, 2, 11, 3, 12, 20, 13, 4])) \<noteq>
     Inr (True, Some WHITE)"
  by code_simp

text \<open>
  In a game a move is made only on a board that \<open>is_game_over\<close> calls not over (the
  loops of \<open>train.py\<close> stop at the first board that is over). On the board after such a
  move only the mover can have five in a line, and the report is exact.
\<close>

lemma has_five_before_move:
  assumes inv: "board_inv n b" and mv: "do_action b a = (Inr (), b')"
    and h: "has_five b' q" and q: "q \<noteq> current_player b"
  shows "has_five b q"
proof -
  note post = do_action_inv[OF inv mv]
  then have inv': "board_inv n b'" and st': "state b' = state b @ [(a, current_player b)]"
    by simp_all
  have bl: "board_len b = n" "board_len b' = n" using inv inv' by (simp_all add: board_inv_def)
  have "stone_at b r c = Some q" if "stone_at b' r c = Some q" for r c
    using that q by (auto simp: stone_at_def bl st' map_add_Some_iff split: if_splits)
  then show ?thesis
    using h unfolding has_five_iff bl by blast
qed

lemma game_move_exact:
  assumes reach: "do_actions (empty_board n nfp) as = (Inr (), b)"
    and not_over: "is_game_over b = Inr (False, None)"
    and mv: "do_action b a = (Inr (), b')"
  shows "is_game_over b' = Inr (True, Some p) \<longleftrightarrow> has_five b' p"
proof -
  note inv = reachable_inv(1)[OF reach]
  note post = do_action_inv[OF inv mv]
  then have inv': "board_inv n b'" by simp
  have none: "\<not> has_five b q" for q
    using win_complete[OF inv, of q] not_over by auto
  show ?thesis
  proof
    assume "is_game_over b' = Inr (True, Some p)"
    then show "has_five b' p" by (rule win_sound[OF inv'])
  next
    assume h: "has_five b' p"
    then obtain q where q: "is_game_over b' = Inr (True, Some q)"
      using win_complete[OF inv'] by blast
    then have hq: "has_five b' q" by (rule win_sound[OF inv'])
    have "p = current_player b" "q = current_player b"
      using has_five_before_move[OF inv mv h] has_five_before_move[OF inv mv hq] none by blast+
    with q show "is_game_over b' = Inr (True, Some p)" by simp
  qed
qed

section \<open>C6: no report below nine stones\<close>

text \<open>
  C6. On every board with fewer than nine entries in its dictionary, whatever they are,
  \<open>is_game_over\<close> returns \<open>(False, None)\<close>. On a board that legal moves have reached,
  with nine stones or more, five stones in a line are reported as a win. On the board of
  side 9, after BLACK at 0, 1, 2, 3 and WHITE at 9, 10, 11, 12 in turn, the game is not
  over, and BLACK's fifth move at 4, the ninth stone, makes it \<open>(True, BLACK)\<close>: the
  floor counts the stones of both players.
\<close>

theorem nine_stone_floor:
  assumes "do_actions (empty_board n nfp) as = (Inr (), b)"
  shows "(length (state c) < 9 \<longrightarrow> is_game_over c = Inr (False, None)) \<and>
         (9 \<le> length (state b) \<and> has_five b p \<longrightarrow>
            (\<exists>q. is_game_over b = Inr (True, Some q) \<and> has_five b q)) \<and>
         fst (do_actions (empty_board 9 9) [0, 9, 1, 10, 2, 11, 3, 12, 4]) = Inr () \<and>
         is_game_over (snd (do_actions (empty_board 9 9) [0, 9, 1, 10, 2, 11, 3, 12])) =
           Inr (False, None) \<and>
         is_game_over (snd (do_actions (empty_board 9 9) [0, 9, 1, 10, 2, 11, 3, 12, 4])) =
           Inr (True, Some BLACK)"
proof -
  note inv = reachable_inv(1)[OF assms]
  have 1: "length (state c) < 9 \<longrightarrow> is_game_over c = Inr (False, None)"
    by (simp add: is_game_over_def)
  have 2: "9 \<le> length (state b) \<and> has_five b p \<longrightarrow>
            (\<exists>q. is_game_over b = Inr (True, Some q) \<and> has_five b q)"
    using win_complete[OF inv, of p] win_sound[OF inv] by blast
  have 3: "fst (do_actions (empty_board 9 9) [0, 9, 1, 10, 2, 11, 3, 12, 4]) = Inr ()"
    by code_simp
  have 4: "is_game_over (snd (do_actions (empty_board 9 9) [0, 9, 1, 10, 2, 11, 3, 12])) =
           Inr (False, None)"
    by code_simp
  have 5: "is_game_over (snd (do_actions (empty_board 9 9) [0, 9, 1, 10, 2, 11, 3, 12, 4])) =
           Inr (True, Some BLACK)"
    by code_simp
  from 1 2 3 4 5 show ?thesis by blast
qed

text \<open>
  Below the floor the configuration does not matter: a board record with five BLACK
  stones at 0 to 4 and nothing else is not over. At the floor, the nine moves above.
\<close>

theorem nine_stone_floor_witness:
  "length (state \<lparr> board_len = 9, current_player = WHITE, n_feature_planes = 9,
       available_actions = [], state = [(0, BLACK), (1, BLACK), (2, BLACK), (3, BLACK), (4, BLACK)],
       previous_action = Some 4 \<rparr>) < 9 \<and>
   is_game_over \<lparr> board_len = 9, current_player = WHITE, n_feature_planes = 9,
       available_actions = [], state = [(0, BLACK), (1, BLACK), (2, BLACK), (3, BLACK), (4, BLACK)],
       previous_action = Some 4 \<rparr> = Inr (False, None) \<and>
   9 \<le> length (state (snd (do_actions (empty_board 9 9) [0, 9, 1, 10, 2, 11, 3, 12, 4]))) \<and>
   has_five (snd (do_actions (empty_board 9 9) [0, 9, 1, 10, 2, 11, 3, 12, 4])) BLACK \<and>
   (\<exists>q. is_game_over (snd (do_actions (empty_board 9 9) [0, 9, 1, 10, 2, 11, 3, 12, 4])) =
      Inr (True, Some q) \<and>
      has_five (snd (do_actions (empty_board 9 9) [0, 9, 1, 10, 2, 11, 3, 12, 4])) q)"
proof -
  let ?c = "\<lparr> board_len = 9, current_player = WHITE, n_feature_planes = 9,
       available_actions = [], state = [(0, BLACK), (1, BLACK), (2, BLACK), (3, BLACK), (4, BLACK)],
       previous_action = Some 4 \<rparr>"
  let ?b = "snd (do_actions (empty_board 9 9) [0, 9, 1, 10, 2, 11, 3, 12, 4])"
  have ok: "fst (do_actions (empty_board 9 9) [0, 9, 1, 10, 2, 11, 3, 12, 4]) = Inr ()"
    by code_simp
  then have h: "do_actions (empty_board 9 9) [0, 9, 1, 10, 2, 11, 3, 12, 4] = (Inr (), ?b)"
    by (metis prod.collapse)
  have l: "length (state ?c) < 9" by simp
  have n: "9 \<le> length (state ?b)" by code_simp
  have f: "has_five ?b BLACK" by code_simp
  from nine_stone_floor[OF h, of ?c BLACK] l n f show ?thesis by blast
qed

section \<open>The feature planes\<close>

lemma length_cell_mask: "length (cell_mask N S) = N"
  by (simp add: cell_mask_def)

lemma nth_cell_mask: "j < N \<Longrightarrow> cell_mask N S ! j = (if int j \<in> S then 1 else 0)"
  by (simp add: cell_mask_def)

lemma cell_mask_empty: "cell_mask N {} = replicate N 0"
  by (simp add: cell_mask_def map_replicate_const)

lemma cell_mask_update:
  assumes "0 \<le> i" and "i < int N"
  shows "(cell_mask N S)[nat i := 1] = cell_mask N (insert i S)"
proof (rule nth_equalityI)
  show "length ((cell_mask N S)[nat i := 1]) = length (cell_mask N (insert i S))"
    by (simp add: length_cell_mask)
next
  fix j assume "j < length ((cell_mask N S)[nat i := 1])"
  then have j: "j < N" by (simp add: length_cell_mask)
  show "(cell_mask N S)[nat i := 1] ! j = cell_mask N (insert i S) ! j"
    using assms j by (cases "j = nat i") (auto simp: nth_cell_mask length_cell_mask nth_list_update)
qed

lemma set_ones_cell_mask:
  assumes "\<forall>i \<in> set is. 0 \<le> i \<and> i < int N"
  shows "set_ones (cell_mask N S) is = Inr (cell_mask N (S \<union> set is))"
  using assms
proof (induction "is" arbitrary: S)
  case Nil
  then show ?case by simp
next
  case (Cons i "is")
  then have i: "0 \<le> i" "i < int N" by simp_all
  have "set_ones (cell_mask N S) (i # is) = set_ones ((cell_mask N S)[nat i := 1]) is"
    using i by (simp add: length_cell_mask Let_def)
  also have "\<dots> = set_ones (cell_mask N (insert i S)) is"
    by (simp only: cell_mask_update[OF i])
  also have "\<dots> = Inr (cell_mask N (insert i S \<union> set is))"
    using Cons by simp
  finally show ?case by simp
qed

lemma add_history_step:
  assumes x: "\<forall>a \<in> set Xt. 0 \<le> a \<and> a < int N" and y: "\<forall>a \<in> set Yt. 0 \<le> a \<and> a < int N"
    and p: "planes ! (2 * i) = cell_mask N {}" "planes ! (2 * i + 1) = cell_mask N {}"
    and l: "2 * i + 1 < length planes"
  shows "add_history Xt Yt (i # is) planes =
     add_history Xt Yt is
       (planes[2 * i := cell_mask N (set (drop i Xt)), 2 * i + 1 := cell_mask N (set (drop i Yt))])"
proof -
  have dx: "\<forall>a \<in> set (drop i Xt). 0 \<le> a \<and> a < int N"
    using x by (meson in_set_dropD)
  have dy: "\<forall>a \<in> set (drop i Yt). 0 \<le> a \<and> a < int N"
    using y by (meson in_set_dropD)
  have ex: "(if i < length Xt then set_ones (planes ! (2 * i)) (drop i Xt)
             else Inr (planes ! (2 * i))) = Inr (cell_mask N (set (drop i Xt)))"
    using set_ones_cell_mask[OF dx, of "{}"] by (simp add: p)
  let ?p1 = "planes[2 * i := cell_mask N (set (drop i Xt))]"
  have p1: "?p1 ! (2 * i + 1) = cell_mask N {}" using p(2) by simp
  have ey: "(if i < length Yt then set_ones (?p1 ! (2 * i + 1)) (drop i Yt)
             else Inr (?p1 ! (2 * i + 1))) = Inr (cell_mask N (set (drop i Yt)))"
    using set_ones_cell_mask[OF dy, of "{}"] p(2) by simp
  show ?thesis
    by (simp only: add_history.simps ex ey sum.case Let_def)
qed

lemma add_history_masks:
  assumes x: "\<forall>a \<in> set Xt. 0 \<le> a \<and> a < int N" and y: "\<forall>a \<in> set Yt. 0 \<le> a \<and> a < int N"
  shows "add_history Xt Yt [0, 1, 2, 3] ((replicate 9 (replicate N 0))[8 := last_plane]) =
     Inr [cell_mask N (set (drop 0 Xt)), cell_mask N (set (drop 0 Yt)),
          cell_mask N (set (drop 1 Xt)), cell_mask N (set (drop 1 Yt)),
          cell_mask N (set (drop 2 Xt)), cell_mask N (set (drop 2 Yt)),
          cell_mask N (set (drop 3 Xt)), cell_mask N (set (drop 3 Yt)), last_plane]"
proof -
  let ?z = "cell_mask N {}"
  have p0: "(replicate 9 (replicate N 0))[8 := last_plane] = [?z, ?z, ?z, ?z, ?z, ?z, ?z, ?z, last_plane]"
    by (simp add: cell_mask_empty numeral_eq_Suc)
  note st = add_history_step[OF x y]
  show ?thesis
    unfolding p0
    apply (subst st[where i = 0], simp, simp, simp)
    apply (subst st[where i = 1], simp, simp, simp)
    apply (subst st[where i = 2], simp, simp, simp)
    apply (subst st[where i = 3], simp, simp, simp)
    apply simp
    done
qed

lemma zip_rev_items: "zip (rev (map fst st)) (rev (map snd st)) = rev st"
  by (simp add: zip_rev zip_map_fst_snd)

lemma Xt_stones_of:
  "map fst (filter (\<lambda>(a, q). q = p) (zip (rev (map fst (state b))) (rev (map snd (state b))))) =
     stones_of b p"
  by (subst zip_rev_items) (simp add: stones_of_def rev_filter rev_map)

lemma Yt_stones_of:
  assumes inv: "board_inv n b"
  shows "map fst (filter (\<lambda>(a, q). q \<noteq> current_player b)
            (zip (rev (map fst (state b))) (rev (map snd (state b))))) =
     stones_of b (WHITE + BLACK - current_player b)"
proof -
  have cp: "current_player b = BLACK \<or> current_player b = WHITE"
    using inv by (auto simp: board_inv_def colour_at_def)
  have pl: "\<forall>x \<in> set (state b). snd x = BLACK \<or> snd x = WHITE"
  proof
    fix x assume "x \<in> set (state b)"
    then have "(fst x, snd x) \<in> set (state b)" by simp
    then show "snd x = BLACK \<or> snd x = WHITE" by (rule inv_players[OF inv])
  qed
  have "filter (\<lambda>(a, q). q \<noteq> current_player b) (rev (state b)) =
        filter (\<lambda>(a, q). q = WHITE + BLACK - current_player b) (rev (state b))"
  proof (rule filter_cong[OF refl])
    fix x assume "x \<in> set (rev (state b))"
    with pl have "snd x = BLACK \<or> snd x = WHITE" by simp
    with cp show "(case x of (a, q) \<Rightarrow> q \<noteq> current_player b) =
        (case x of (a, q) \<Rightarrow> q = WHITE + BLACK - current_player b)"
      by (cases x) auto
  qed
  then show ?thesis
    by (subst zip_rev_items) (simp add: stones_of_def rev_filter rev_map)
qed

lemma stones_of_range:
  assumes inv: "board_inv n b"
  shows "\<forall>a \<in> set (stones_of b p). 0 \<le> a \<and> a < int (nat (n * n))"
proof
  fix a assume "a \<in> set (stones_of b p)"
  then have "(a, p) \<in> set (state b)" by (auto simp: stones_of_def)
  from inv_range[OF inv this] show "0 \<le> a \<and> a < int (nat (n * n))" by simp
qed

lemma get_feature_planes_inv:
  assumes inv: "board_inv n b"
  shows "get_feature_planes b = view (history_planes b) n"
proof -
  have bl: "board_len b = n" using inv by (simp add: board_inv_def)
  let ?N = "nat (n * n)"
  let ?X = "stones_of b (current_player b)"
  let ?Y = "stones_of b (WHITE + BLACK - current_player b)"
  let ?p0 = "(replicate 9 (replicate ?N 0))[8 := replicate ?N (current_player b)]"
  have hist: "add_history ?X ?Y [0, 1, 2, 3] ?p0 = Inr (history_planes b)"
    unfolding history_planes_def Let_def bl
    by (rule add_history_masks[OF stones_of_range[OF inv] stones_of_range[OF inv]])
  show ?thesis
  proof (cases "state b = []")
    case True
    then have e: "stones_of b p = []" for p by (simp add: stones_of_def)
    have "history_planes b = ?p0"
      by (simp add: history_planes_def Let_def bl e cell_mask_empty numeral_eq_Suc)
    then show ?thesis
      using True by (simp add: get_feature_planes_def Let_def bl)
  next
    case False
    then show ?thesis
      unfolding get_feature_planes_def Let_def Xt_stones_of Yt_stones_of[OF inv] bl hist
      by simp
  qed
qed

lemma nth_rows:
  assumes "r < n" and "c < n" and "length plane = n * n"
  shows "rows n plane ! r ! c = plane ! (r * n + c)"
proof -
  have "r * n + n \<le> n * n"
  proof -
    have "Suc r * n \<le> n * n" using assms(1) by (intro mult_le_mono1) simp
    then show ?thesis by simp
  qed
  then show ?thesis
    using assms by (simp add: rows_def)
qed

lemma rows_shape: "length plane = n * n \<Longrightarrow> length (rows n plane) = n \<and> (\<forall>R \<in> set (rows n plane). length R = n)"
proof -
  assume l: "length plane = n * n"
  have "length (take n (drop (r * n) plane)) = n" if "r < n" for r
  proof -
    have "Suc r * n \<le> n * n" using that by (intro mult_le_mono1) simp
    then show ?thesis using l by simp
  qed
  then show ?thesis by (auto simp: rows_def)
qed

lemma history_planes_nth:
  assumes "i < 4"
  shows "history_planes b ! (2 * i) =
           cell_mask (nat (board_len b * board_len b)) (set (drop i (stones_of b (current_player b))))"
    and "history_planes b ! (2 * i + 1) =
           cell_mask (nat (board_len b * board_len b))
             (set (drop i (stones_of b (WHITE + BLACK - current_player b))))"
proof -
  from assms have "i = 0 \<or> i = 1 \<or> i = 2 \<or> i = 3" by linarith
  then show "history_planes b ! (2 * i) =
           cell_mask (nat (board_len b * board_len b)) (set (drop i (stones_of b (current_player b))))"
    and "history_planes b ! (2 * i + 1) =
           cell_mask (nat (board_len b * board_len b))
             (set (drop i (stones_of b (WHITE + BLACK - current_player b))))"
    by (auto simp: history_planes_def Let_def)
qed

lemma history_planes_shape:
  "length (history_planes b) = 9"
  "history_planes b ! 8 = replicate (nat (board_len b * board_len b)) (current_player b)"
  "\<forall>P \<in> set (history_planes b). length P = nat (board_len b * board_len b)"
  by (simp_all add: history_planes_def Let_def length_cell_mask)

lemma cell_in_plane:
  fixes n :: nat
  assumes "r < n" and "c < n"
  shows "r * n + c < n * n"
proof -
  have "Suc r * n \<le> n * n" using assms(1) by (intro mult_le_mono1) simp
  then show ?thesis using assms(2) by simp
qed

lemma get_feature_planes_n_feature_planes:
  "get_feature_planes (b\<lparr> n_feature_planes := k \<rparr>) = get_feature_planes b"
  by (simp add: get_feature_planes_def Let_def del: add_history.simps split: sum.split)

section \<open>C3: the channels of the feature tensor\<close>

text \<open>
  C3, as the code has it. On every board that legal moves have reached, of side
  \<open>n \<ge> 0\<close>, \<open>get_feature_planes\<close> returns a tensor of nine channels such that, for
  \<open>i = 0..3\<close>, channel \<open>2 * i\<close> is the 0/1 mask of the stones of the player to move
  without the stones of that player's \<open>i\<close> most recent turns (\<open>Xt[i:]\<close>: the
  player's position as it stood \<open>i\<close> of their turns ago, all zero when the player has at
  most \<open>i\<close> stones), channel \<open>2 * i + 1\<close> is the same mask for the opponent, and the
  last channel is the constant plane of the colour of the player to move.
\<close>

theorem feature_planes_are_positions_back_in_time:
  assumes "do_actions (empty_board n nfp) as = (Inr (), b)" and "0 \<le> n"
  shows "\<exists>T. get_feature_planes b = Inr T \<and> length T = 9 \<and>
     (\<forall>i < 4. \<forall>r < nat n. \<forall>c < nat n.
        T ! (2 * i) ! r ! c =
          (if int (r * nat n + c) \<in> set (drop i (stones_of b (current_player b)))
           then 1 else 0) \<and>
        T ! (2 * i + 1) ! r ! c =
          (if int (r * nat n + c) \<in> set (drop i (stones_of b (WHITE + BLACK - current_player b)))
           then 1 else 0)) \<and>
     (\<forall>r < nat n. \<forall>c < nat n. T ! 8 ! r ! c = current_player b)"
proof -
  note inv = reachable_inv(1)[OF assms(1)]
  have bl: "board_len b = n" using inv by (simp add: board_inv_def)
  have N: "nat (n * n) = nat n * nat n" using assms(2) by (simp add: nat_mult_distrib)
  let ?T = "map (rows (nat n)) (history_planes b)"
  have T: "get_feature_planes b = Inr ?T"
    using assms(2) by (simp add: get_feature_planes_inv[OF inv] view_def)
  have len: "length ?T = 9" by (simp add: history_planes_shape)
  have cell: "?T ! k ! r ! c = history_planes b ! k ! (r * nat n + c)"
    if "k < 9" "r < nat n" "c < nat n" for k r c
  proof -
    have "history_planes b ! k \<in> set (history_planes b)"
      using that(1) by (simp add: history_planes_shape)
    then have "length (history_planes b ! k) = nat n * nat n"
      using history_planes_shape(3)[of b] by (simp add: bl N)
    from nth_rows[OF that(2,3) this] show ?thesis
      using that(1) by (simp add: history_planes_shape)
  qed
  have hist: "?T ! (2 * i) ! r ! c =
          (if int (r * nat n + c) \<in> set (drop i (stones_of b (current_player b)))
           then 1 else 0) \<and>
        ?T ! (2 * i + 1) ! r ! c =
          (if int (r * nat n + c) \<in> set (drop i (stones_of b (WHITE + BLACK - current_player b)))
           then 1 else 0)"
    if "i < 4" "r < nat n" "c < nat n" for i r c
  proof -
    have k: "2 * i < 9" "2 * i + 1 < 9" using that(1) by simp_all
    have j: "r * nat n + c < nat n * nat n" using that(2,3) by (rule cell_in_plane)
    show ?thesis
      unfolding cell[OF k(1) that(2,3)] cell[OF k(2) that(2,3)]
        history_planes_nth[OF that(1)] bl N
      using j by (simp add: nth_cell_mask)
  qed
  have last: "?T ! 8 ! r ! c = current_player b" if "r < nat n" "c < nat n" for r c
  proof -
    have j: "r * nat n + c < nat n * nat n" using that by (rule cell_in_plane)
    show ?thesis
      unfolding cell[OF _ that, of 8, simplified] history_planes_shape(2) bl N
      using j by simp
  qed
  from T len hist last show ?thesis by blast
qed

text \<open>
  The board of side 3 after the moves 0, 1, 2, 3: BLACK, to move, holds 2 and 0, WHITE
  holds 3 and 1.
\<close>

theorem feature_planes_are_positions_back_in_time_witness:
  "do_actions (empty_board 3 9) [0, 1, 2, 3] =
     (Inr (), snd (do_actions (empty_board 3 9) [0, 1, 2, 3])) \<and>
   stones_of (snd (do_actions (empty_board 3 9) [0, 1, 2, 3])) BLACK = [2, 0] \<and>
   stones_of (snd (do_actions (empty_board 3 9) [0, 1, 2, 3])) WHITE = [3, 1] \<and>
   get_feature_planes (snd (do_actions (empty_board 3 9) [0, 1, 2, 3])) =
     Inr [[[1, 0, 1], [0, 0, 0], [0, 0, 0]], [[0, 1, 0], [1, 0, 0], [0, 0, 0]],
          [[1, 0, 0], [0, 0, 0], [0, 0, 0]], [[0, 1, 0], [0, 0, 0], [0, 0, 0]],
          [[0, 0, 0], [0, 0, 0], [0, 0, 0]], [[0, 0, 0], [0, 0, 0], [0, 0, 0]],
          [[0, 0, 0], [0, 0, 0], [0, 0, 0]], [[0, 0, 0], [0, 0, 0], [0, 0, 0]],
          [[1, 1, 1], [1, 1, 1], [1, 1, 1]]] \<and>
   (\<exists>T. get_feature_planes (snd (do_actions (empty_board 3 9) [0, 1, 2, 3])) = Inr T \<and>
      length T = 9 \<and>
      (\<forall>i < 4. \<forall>r < nat 3. \<forall>c < nat 3.
        T ! (2 * i) ! r ! c =
          (if int (r * nat 3 + c) \<in> set (drop i (stones_of (snd (do_actions (empty_board 3 9) [0, 1, 2, 3]))
              (current_player (snd (do_actions (empty_board 3 9) [0, 1, 2, 3])))))
           then 1 else 0) \<and>
        T ! (2 * i + 1) ! r ! c =
          (if int (r * nat 3 + c) \<in> set (drop i (stones_of (snd (do_actions (empty_board 3 9) [0, 1, 2, 3]))
              (WHITE + BLACK - current_player (snd (do_actions (empty_board 3 9) [0, 1, 2, 3])))))
           then 1 else 0)) \<and>
      (\<forall>r < nat 3. \<forall>c < nat 3.
         T ! 8 ! r ! c = current_player (snd (do_actions (empty_board 3 9) [0, 1, 2, 3]))))"
proof -
  let ?b = "snd (do_actions (empty_board 3 9) [0, 1, 2, 3])"
  have ok: "fst (do_actions (empty_board 3 9) [0, 1, 2, 3]) = Inr ()" by code_simp
  then have h: "do_actions (empty_board 3 9) [0, 1, 2, 3] = (Inr (), ?b)"
    by (metis prod.collapse)
  have n: "(0::int) \<le> 3" by simp
  have s1: "stones_of ?b BLACK = [2, 0]" by code_simp
  have s2: "stones_of ?b WHITE = [3, 1]" by code_simp
  have t: "get_feature_planes ?b =
     Inr [[[1, 0, 1], [0, 0, 0], [0, 0, 0]], [[0, 1, 0], [1, 0, 0], [0, 0, 0]],
          [[1, 0, 0], [0, 0, 0], [0, 0, 0]], [[0, 1, 0], [0, 0, 0], [0, 0, 0]],
          [[0, 0, 0], [0, 0, 0], [0, 0, 0]], [[0, 0, 0], [0, 0, 0], [0, 0, 0]],
          [[0, 0, 0], [0, 0, 0], [0, 0, 0]], [[0, 0, 0], [0, 0, 0], [0, 0, 0]],
          [[1, 1, 1], [1, 1, 1], [1, 1, 1]]]"
    by code_simp
  from h s1 s2 t feature_planes_are_positions_back_in_time[OF h n] show ?thesis
    by (intro conjI)
qed

text \<open>
  The claim as it is written asks channel \<open>2 * i\<close> to include the stones of the
  \<open>i + 1\<close> most recent turns of the player to move. On the same board, for \<open>i = 1\<close>,
  these are BLACK's stones at 2 and 0; channel 2 is 0 at the cell 2 (row 0, column 2),
  the most recent of them.
\<close>

theorem newest_stone_missing_from_channel_2:
  "fst (do_actions (empty_board 3 9) [0, 1, 2, 3]) = Inr () \<and>
   current_player (snd (do_actions (empty_board 3 9) [0, 1, 2, 3])) = BLACK \<and>
   take (1 + 1) (stones_of (snd (do_actions (empty_board 3 9) [0, 1, 2, 3])) BLACK) = [2, 0] \<and>
   get_feature_planes (snd (do_actions (empty_board 3 9) [0, 1, 2, 3])) =
     Inr [[[1, 0, 1], [0, 0, 0], [0, 0, 0]], [[0, 1, 0], [1, 0, 0], [0, 0, 0]],
          [[1, 0, 0], [0, 0, 0], [0, 0, 0]], [[0, 1, 0], [0, 0, 0], [0, 0, 0]],
          [[0, 0, 0], [0, 0, 0], [0, 0, 0]], [[0, 0, 0], [0, 0, 0], [0, 0, 0]],
          [[0, 0, 0], [0, 0, 0], [0, 0, 0]], [[0, 0, 0], [0, 0, 0], [0, 0, 0]],
          [[1, 1, 1], [1, 1, 1], [1, 1, 1]]] \<and>
   projr (get_feature_planes (snd (do_actions (empty_board 3 9) [0, 1, 2, 3]))) ! (2 * 1) ! 0 ! 2 = 0"
  by code_simp

section \<open>C10: nine planes, whatever \<open>n_feature_planes\<close>\<close>

text \<open>
  C10. The constructor rejects an even \<open>n_feature_planes\<close> with \<open>ValueError\<close> and
  accepts an odd one. On every board that legal moves have reached from a board it has
  built, of side \<open>n \<ge> 0\<close>, \<open>get_feature_planes\<close> returns nine planes of \<open>n\<close> rows of
  \<open>n\<close> entries, and the tensor does not depend on \<open>n_feature_planes\<close>: the field is
  never read.
\<close>

theorem nine_planes_whatever_n_feature_planes:
  assumes "ChessBoard_init n nfp = Inr b0" and "do_actions b0 as = (Inr (), b)" and "0 \<le> n"
  shows "odd nfp \<and> (even m \<longrightarrow> ChessBoard_init n m = Inl ValueError) \<and>
     (\<exists>T. get_feature_planes b = Inr T \<and> length T = 9 \<and>
        (\<forall>P \<in> set T. length P = nat n \<and> (\<forall>R \<in> set P. length R = nat n))) \<and>
     get_feature_planes (b\<lparr> n_feature_planes := k \<rparr>) = get_feature_planes b"
proof -
  from assms(1) have odd: "odd nfp" and b0: "b0 = empty_board n nfp"
    by (auto simp: ChessBoard_init_def split: if_splits)
  have ev: "even m \<longrightarrow> ChessBoard_init n m = Inl ValueError"
    by (auto simp: ChessBoard_init_def)
  note inv = reachable_inv(1)[OF assms(2)[unfolded b0]]
  have bl: "board_len b = n" using inv by (simp add: board_inv_def)
  have N: "nat (n * n) = nat n * nat n" using assms(3) by (simp add: nat_mult_distrib)
  let ?T = "map (rows (nat n)) (history_planes b)"
  have T: "get_feature_planes b = Inr ?T"
    using assms(3) by (simp add: get_feature_planes_inv[OF inv] view_def)
  have len: "length ?T = 9" by (simp add: history_planes_shape)
  have shape: "\<forall>P \<in> set ?T. length P = nat n \<and> (\<forall>R \<in> set P. length R = nat n)"
  proof
    fix P assume "P \<in> set ?T"
    then obtain pl where pl: "pl \<in> set (history_planes b)" and P: "P = rows (nat n) pl"
      by auto
    from pl have "length pl = nat n * nat n"
      using history_planes_shape(3)[of b] by (simp add: bl N)
    from rows_shape[OF this] show "length P = nat n \<and> (\<forall>R \<in> set P. length R = nat n)"
      by (simp add: P)
  qed
  from odd ev T len shape get_feature_planes_n_feature_planes show ?thesis by blast
qed

text \<open>A board built with five feature planes still yields nine; eight is rejected.\<close>

theorem nine_planes_whatever_n_feature_planes_witness:
  "ChessBoard_init 3 5 = Inr (empty_board 3 5) \<and>
   do_actions (empty_board 3 5) [4] = (Inr (), snd (do_actions (empty_board 3 5) [4])) \<and>
   odd (5 :: int) \<and>
   (\<exists>T. get_feature_planes (snd (do_actions (empty_board 3 5) [4])) = Inr T \<and> length T = 9 \<and>
        (\<forall>P \<in> set T. length P = nat 3 \<and> (\<forall>R \<in> set P. length R = nat 3))) \<and>
   get_feature_planes ((snd (do_actions (empty_board 3 5) [4]))\<lparr> n_feature_planes := 9 \<rparr>) =
     get_feature_planes (snd (do_actions (empty_board 3 5) [4])) \<and>
   ChessBoard_init 3 8 = Inl ValueError"
proof -
  let ?b = "snd (do_actions (empty_board 3 5) [4])"
  have i: "ChessBoard_init 3 5 = Inr (empty_board 3 5)" by (simp add: ChessBoard_init_def)
  have ok: "fst (do_actions (empty_board 3 5) [4]) = Inr ()" by code_simp
  then have h: "do_actions (empty_board 3 5) [4] = (Inr (), ?b)"
    by (metis prod.collapse)
  have n: "(0::int) \<le> 3" by simp
  have e: "even (8 :: int)" by simp
  from nine_planes_whatever_n_feature_planes[OF i h n, of 8 9] e i h show ?thesis
    by blast
qed

section \<open>C5: what a self-play episode records\<close>

lemma outcome_labels_eq: "outcome_labels w ps = map (label_for w) ps"
  by (cases w) (simp_all add: outcome_labels_def label_for_def[abs_def] map_replicate_const)

lemma self_play_loop_episode:
  "self_play_loop ga m b pis fpl pls = Inr ((fpl', pis', zs), m', b') \<Longrightarrow>
   \<exists>plies w. episode ga m b plies m' b' w \<and>
     map Inr fpl' = map Inr fpl @ map (\<lambda>e. get_feature_planes (fst e)) plies \<and>
     pis' = pis @ map snd plies \<and>
     zs = map (label_for w) (pls @ map (\<lambda>e. current_player (fst e)) plies)"
proof (induction ga m b pis fpl pls rule: self_play_loop.induct)
  case (1 ga m b pis fpl pls)
  obtain action probs m1 where g: "ga m b = ((action, probs), m1)"
    by (metis prod.collapse)
  from "1.prems" g obtain fp where fp: "get_feature_planes b = Inr fp"
    by (subst (asm) self_play_loop.simps) (auto split: sum.splits)
  from "1.prems" g fp obtain b1 where mv: "do_action b action = (Inr (), b1)"
    by (subst (asm) self_play_loop.simps) (auto split: sum.splits prod.splits)
  from "1.prems" g fp mv obtain is_over w0 where ov: "is_game_over b1 = Inr (is_over, w0)"
    by (subst (asm) self_play_loop.simps) (auto split: sum.splits prod.splits)
  show ?case
  proof (cases is_over)
    case True
    with "1.prems" g fp mv ov
    have r: "fpl' = fpl @ [fp]" "pis' = pis @ [probs]"
      "zs = outcome_labels w0 (pls @ [current_player b])" "m' = m1" "b' = b1"
      by (subst (asm) self_play_loop.simps, simp)+
    have "episode ga m b [(b, probs)] m1 b1 w0"
      using g mv ov True by (auto intro: episode.last_ply)
    then show ?thesis
      using r fp by (intro exI[of _ "[(b, probs)]"] exI[of _ w0]) (simp add: outcome_labels_eq)
  next
    case False
    with "1.prems" g fp mv ov
    have rec: "self_play_loop ga m1 b1 (pis @ [probs]) (fpl @ [fp]) (pls @ [current_player b]) =
        Inr ((fpl', pis', zs), m', b')"
      by (subst (asm) self_play_loop.simps) simp
    from "1.IH"[OF g[symmetric] refl fp mv[symmetric] refl ov refl _ rec] False
    obtain plies w where ep: "episode ga m1 b1 plies m' b' w"
      and f: "map Inr fpl' = map Inr (fpl @ [fp]) @ map (\<lambda>e. get_feature_planes (fst e)) plies"
      and p: "pis' = (pis @ [probs]) @ map snd plies"
      and l: "zs = map (label_for w) ((pls @ [current_player b]) @ map (\<lambda>e. current_player (fst e)) plies)"
      by blast
    have "episode ga m b ((b, probs) # plies) m' b' w"
      using g mv ov False ep by (auto intro: episode.ply)
    then show ?thesis
      using f p l fp by (intro exI[of _ "(b, probs) # plies"] exI[of _ w]) simp
  qed
qed

lemma episode_over: "episode ga m b plies m' b' w \<Longrightarrow> is_game_over b' = Inr (True, w)"
  by (induction rule: episode.induct) auto

text \<open>
  C5. When \<open>__self_play\<close> returns, its data are those of an episode from the cleared
  board: the \<open>i\<close>-th feature tensor is \<open>get_feature_planes\<close> of the board before the
  \<open>i\<close>-th action was applied, the \<open>i\<close>-th vector \<open>\<pi>\<close> is the one the search gave on that
  board, and the \<open>i\<close>-th label is 0 when the game ended without a winner, 1 when the
  player to move on that board is the winner and -1 when it is not. The winner is the
  one \<open>is_game_over\<close> reports on the last board.
\<close>

theorem self_play_snapshots_and_labels:
  assumes "self_play ga reset_root m b = Inr (d, m', b')"
  shows "\<exists>plies w mf. episode ga m (clear_board b) plies mf b' w \<and> m' = reset_root mf \<and>
     is_game_over b' = Inr (True, w) \<and>
     map Inr (feature_planes_list d) = map (\<lambda>e. get_feature_planes (fst e)) plies \<and>
     pi_list d = map snd plies \<and>
     z d = map (\<lambda>e. case w of None \<Rightarrow> 0
                       | Some v \<Rightarrow> if current_player (fst e) = v then 1 else - 1) plies"
proof -
  from assms obtain fpl pis zs mf where
    loop: "self_play_loop ga m (clear_board b) [] [] [] = Inr ((fpl, pis, zs), mf, b')"
    and d: "d = \<lparr> feature_planes_list = fpl, pi_list = pis, z = zs \<rparr>" and m': "m' = reset_root mf"
    by (auto simp: self_play_def split: sum.splits)
  from self_play_loop_episode[OF loop] obtain plies w where
    ep: "episode ga m (clear_board b) plies mf b' w"
    and f: "map Inr fpl = map (\<lambda>e. get_feature_planes (fst e)) plies"
    and p: "pis = map snd plies"
    and l: "zs = map (label_for w) (map (\<lambda>e. current_player (fst e)) plies)"
    by auto
  have "zs = map (\<lambda>e. case w of None \<Rightarrow> 0
                       | Some v \<Rightarrow> if current_player (fst e) = v then 1 else - 1) plies"
    unfolding l by (simp add: label_for_def comp_def)
  with ep m' f p episode_over[OF ep] show ?thesis
    by (auto simp: d)
qed

text \<open>
  A game on the board of side 5 that BLACK wins with its fifth stone, the ninth of the
  game: the labels are 1 for BLACK's plies and -1 for WHITE's.
\<close>

theorem self_play_snapshots_and_labels_witness:
  "z (fst (projr (self_play scripted (\<lambda>m. m) 0 (empty_board 5 9)))) =
     [1, - 1, 1, - 1, 1, - 1, 1, - 1, 1] \<and>
   (\<exists>plies w mf.
      episode scripted 0 (clear_board (empty_board 5 9)) plies mf
        (snd (snd (projr (self_play scripted (\<lambda>m. m) 0 (empty_board 5 9))))) w \<and>
      fst (snd (projr (self_play scripted (\<lambda>m. m) 0 (empty_board 5 9)))) = mf \<and>
      is_game_over (snd (snd (projr (self_play scripted (\<lambda>m. m) 0 (empty_board 5 9))))) =
        Inr (True, w) \<and>
      map Inr (feature_planes_list (fst (projr (self_play scripted (\<lambda>m. m) 0 (empty_board 5 9))))) =
        map (\<lambda>e. get_feature_planes (fst e)) plies \<and>
      pi_list (fst (projr (self_play scripted (\<lambda>m. m) 0 (empty_board 5 9)))) = map snd plies \<and>
      z (fst (projr (self_play scripted (\<lambda>m. m) 0 (empty_board 5 9)))) =
        map (\<lambda>e. case w of None \<Rightarrow> 0
                  | Some v \<Rightarrow> if current_player (fst e) = v then 1 else - 1) plies)"
proof -
  let ?r = "self_play scripted (\<lambda>m. m) 0 (empty_board 5 9)"
  have "\<not> isl ?r" by code_simp
  then have "?r = Inr (projr ?r)" by (cases ?r) simp_all
  then have h: "?r = Inr (fst (projr ?r), fst (snd (projr ?r)), snd (snd (projr ?r)))"
    by simp
  have l: "z (fst (projr ?r)) = [1, - 1, 1, - 1, 1, - 1, 1, - 1, 1]" by code_simp
  from l self_play_snapshots_and_labels[OF h] show ?thesis by (rule conjI)
qed

subsection \<open>The episode ends\<close>

lemma is_game_over_full_board:
  assumes inv: "board_inv n b" and n: "3 \<le> n" and full: "available_actions b = []"
  shows "\<exists>w. is_game_over b = Inr (True, w)"
proof -
  have bl: "board_len b = n" using inv by (simp add: board_inv_def)
  have keys: "set (map fst (state b)) = {0 ..< n * n}"
    using inv full by (auto simp: board_inv_def)
  have "distinct (map fst (state b))" using inv by (simp add: board_inv_def)
  then have "length (map fst (state b)) = card {0 ..< n * n}"
    using keys by (metis distinct_card)
  then have len: "int (length (state b)) = n * n"
    using zero_le_square[of n] by simp
  have "3 * 3 \<le> n * n" using n by (intro mult_mono) simp_all
  with len have "\<not> length (state b) < 9" by linarith
  then show ?thesis
    using n full by (auto simp: is_game_over_def bl split: option.splits)
qed

lemma is_game_over_returns:
  assumes "board_len b \<noteq> 0"
  shows "\<exists>ov w. is_game_over b = Inr (ov, w)"
  using assms by (auto simp: is_game_over_def split: option.splits)

lemma get_feature_planes_returns:
  assumes "board_inv n b" and "0 \<le> n"
  shows "\<exists>fp. get_feature_planes b = Inr fp"
  using assms by (simp add: get_feature_planes_inv view_def)

text \<open>
  A search that always gives a legal action, on a board of side 3 or more: the loop of
  \<open>__self_play\<close> returns its data, it does not raise.
\<close>

lemma self_play_loop_returns:
  assumes legal: "\<And>m b. available_actions b \<noteq> [] \<Longrightarrow>
      fst (fst (ga m b)) \<in> set (available_actions b)"
    and n: "3 \<le> n"
  shows "board_inv n b \<Longrightarrow> available_actions b \<noteq> [] \<Longrightarrow>
     \<exists>r. self_play_loop ga m b pis fpl pls = Inr r"
proof (induction "length (available_actions b)" arbitrary: b m pis fpl pls rule: less_induct)
  case less
  obtain a probs m1 where g: "ga m b = ((a, probs), m1)" by (metis prod.collapse)
  have mem: "a \<in> set (available_actions b)" using legal[OF less.prems(2), of m] g by simp
  obtain fp where fp: "get_feature_planes b = Inr fp"
    using get_feature_planes_returns[OF less.prems(1)] n by auto
  obtain b1 where mv: "do_action b a = (Inr (), b1)"
    using do_action_legal[OF less.prems(1) mem] by blast
  have inv1: "board_inv n b1"
    and av1: "available_actions b1 = remove1 a (available_actions b)"
    using do_action_inv[OF less.prems(1) mv] by simp_all
  have bl1: "board_len b1 \<noteq> 0" using inv1 n by (auto simp: board_inv_def)
  obtain ov w where ov: "is_game_over b1 = Inr (ov, w)"
    using is_game_over_returns[OF bl1] by blast
  show ?case
  proof (cases ov)
    case True
    then show ?thesis
      by (subst self_play_loop.simps) (simp add: g fp mv ov del: self_play_loop.simps)
  next
    case False
    have ne: "available_actions b1 \<noteq> []"
      using is_game_over_full_board[OF inv1 n] ov False by auto
    have "0 < length (available_actions b)" using mem by (rule length_pos_if_in_set)
    then have sh: "length (available_actions b1) < length (available_actions b)"
      using mem by (simp add: av1 length_remove1)
    have step: "self_play_loop ga m b pis fpl pls =
        self_play_loop ga m1 b1 (pis @ [probs]) (fpl @ [fp]) (pls @ [current_player b])"
      using False
      by (subst self_play_loop.simps) (simp add: g fp mv ov del: self_play_loop.simps)
    from less.hyps[OF sh inv1 ne] show ?thesis
      unfolding step by blast
  qed
qed

lemma self_play_returns:
  assumes legal: "\<And>m b. available_actions b \<noteq> [] \<Longrightarrow>
      fst (fst (ga m b)) \<in> set (available_actions b)"
    and n: "3 \<le> board_len b"
  shows "\<exists>d m' b'. self_play ga reset_root m b = Inr (d, m', b')"
proof -
  have "set (available_actions (clear_board b)) = {0 ..< board_len b * board_len b}"
    by (simp add: clear_board_def set_all_actions)
  moreover have "0 < board_len b * board_len b" using n by simp
  ultimately have ne: "available_actions (clear_board b) \<noteq> []" by auto
  have n': "3 \<le> board_len (clear_board b)" using n by (simp add: clear_board_def)
  from self_play_loop_returns[where ga = ga and b = "clear_board b" and n = "board_len b"
      and m = m and pis = "[]" and fpl = "[]" and pls = "[]", OF legal n board_inv_clear ne]
  obtain r where "self_play_loop ga m (clear_board b) [] [] [] = Inr r" by blast
  then show ?thesis
    by (cases r) (auto simp: self_play_def)
qed

section \<open>Floats: the test \<open>win_prob > 0.55\<close>\<close>
















section \<open>C4: the evaluation gate\<close>



section \<open>C9: the guard around the training loop\<close>

text \<open>
  C9, as the code has it. When the training function raises, whatever it raises, the
  wrapper of \<open>save_model\<close> saves the network under the path that holds the time of the
  clock, closes the writer and writes the losses to their file, and then returns to its
  caller without an exception: the \<open>except\<close> clause does not raise again, and the failure
  that set off the checkpoint is not propagated. When the path of the network cannot
  be written, the \<open>OSError\<close> of the checkpoint leaves the wrapper instead.
\<close>

theorem save_model_checkpoints_and_returns:
  assumes "train_func p = (Inl e, p1)"
  shows "(last_model_path t \<notin> unwritable p1 \<and> losses_path \<notin> unwritable p1 \<longrightarrow>
            save_model train_func t p =
              (Inr (), p1\<lparr> writer_closed := True,
                 disk := (disk p1)(last_model_path t \<mapsto> Pth (policy_value_net p1),
                                  losses_path \<mapsto> Json (train_losses p1)) \<rparr>)) \<and>
         (last_model_path t \<in> unwritable p1 \<longrightarrow>
            save_model train_func t p = (Inl OSError, p1))"
  using assms by (simp add: save_model_def torch_save_def json_dump_def)

text \<open>
  The training function that fails with \<open>RuntimeError\<close> after a third loss: the network
  and the three losses are on the disk, the writer is closed, and the wrapper returns.
\<close>

theorem save_model_checkpoints_and_returns_witness:
  "crashing_train (example_pipeline 5) =
     (Inl RuntimeError, (example_pipeline 5)\<lparr> train_losses := [3 / 2, 1, 1 / 2] \<rparr>) \<and>
   fst (save_model crashing_train ''2026-11-03_12-00-00'' (example_pipeline 5)) = Inr () \<and>
   disk (snd (save_model crashing_train ''2026-11-03_12-00-00'' (example_pipeline 5)))
     (last_model_path ''2026-11-03_12-00-00'') = Some (Pth 1) \<and>
   disk (snd (save_model crashing_train ''2026-11-03_12-00-00'' (example_pipeline 5)))
     losses_path = Some (Json [3 / 2, 1, 1 / 2]) \<and>
   writer_closed (snd (save_model crashing_train ''2026-11-03_12-00-00'' (example_pipeline 5)))"
proof -
  have h: "crashing_train (example_pipeline 5) =
     (Inl RuntimeError, (example_pipeline 5)\<lparr> train_losses := [3 / 2, 1, 1 / 2] \<rparr>)"
    by (simp add: crashing_train_def example_pipeline_def)
  have u: "last_model_path ''2026-11-03_12-00-00''
        \<notin> unwritable ((example_pipeline 5)\<lparr> train_losses := [3 / 2, 1, 1 / 2] \<rparr>) \<and>
      losses_path \<notin> unwritable ((example_pipeline 5)\<lparr> train_losses := [3 / 2, 1, 1 / 2] \<rparr>)"
    by (simp add: example_pipeline_def)
  from save_model_checkpoints_and_returns[where train_func = crashing_train
      and p = "example_pipeline 5" and t = "''2026-11-03_12-00-00''", OF h] u
  have "save_model crashing_train ''2026-11-03_12-00-00'' (example_pipeline 5) =
     (Inr (), (example_pipeline 5)\<lparr> train_losses := [3 / 2, 1, 1 / 2], writer_closed := True,
        disk := (disk ((example_pipeline 5)\<lparr> train_losses := [3 / 2, 1, 1 / 2] \<rparr>))
          (last_model_path ''2026-11-03_12-00-00'' \<mapsto>
             Pth (policy_value_net ((example_pipeline 5)\<lparr> train_losses := [3 / 2, 1, 1 / 2] \<rparr>)),
           losses_path \<mapsto> Json (train_losses ((example_pipeline 5)\<lparr> train_losses := [3 / 2, 1, 1 / 2] \<rparr>))) \<rparr>)"
    by blast
  with h show ?thesis
    by (simp add: example_pipeline_def last_model_path_def losses_path_def)
qed

text \<open>
  The claim as it is written has the failure of the training loop reach the caller. The
  training function above raises \<open>RuntimeError\<close>, and the wrapper around it returns
  without an exception.
\<close>

theorem save_model_does_not_raise_again:
  "fst (crashing_train (example_pipeline 5)) = Inl RuntimeError \<and>
   fst (save_model crashing_train ''2026-11-03_12-00-00'' (example_pipeline 5)) = Inr () \<and>
   fst (save_model crashing_train ''2026-11-03_12-00-00'' (example_pipeline 5)) \<noteq>
     Inl RuntimeError"
  by (simp add: save_model_def crashing_train_def example_pipeline_def torch_save_def
      json_dump_def)

end
